theory Spec2Isabelle
  imports Main
begin

section \<open>The modal registry of \<open>src/src/core.ts\<close>\<close>

text \<open>
  \<open>createModalContext\<close> closes over two mutable structures, the registry
  \<open>modalsMap\<close> (a JavaScript \<open>Map\<close> from a modal's symbol to its record) and the
  array \<open>modalQueue\<close>, and returns operations on them. The records are objects that
  are shared by reference: an invocation of the asynchronous \<open>closeModal\<close> keeps the
  record it found in its local \<open>modal\<close> while it is suspended at an \<open>await\<close>, and
  \<open>open\<close> may meanwhile replace the registry's entry by a new object. The model
  therefore has an explicit store of records (\<open>heap\<close>), and the registry maps a
  symbol to an address.

  Symbols, addresses and the identities of \<open>closeModal\<close> invocations are natural
  numbers.
\<close>

type_synonym sym = nat
type_synonym addr = nat
type_synonym tid = nat

text \<open>
  The numbers of the model are the integers and \<open>NaN\<close> (\<open>None\<close>): \<open>baseZIndex\<close> is
  an integer when it is given, and the one operation on numbers is adding the length
  of the Open Queue.
\<close>

type_synonym number = "int option"

subsection \<open>Close guards\<close>

text \<open>
  A guard is a callback \<open>fn: () => Promise<void | boolean> | void | boolean\<close>. The
  negotiation evaluates \<open>await Promise.resolve(fn())\<close>, so all it can observe of a
  call is: \<open>fn()\<close> throws (the exception reaches the \<open>catch\<close> before any
  suspension), or \<open>fn()\<close> returns and the awaited value later settles: it fulfils
  with \<open>undefined\<close> (\<open>None\<close>), \<open>true\<close> or \<open>false\<close> (a plain return value is
  wrapped by \<open>Promise.resolve\<close>), or it rejects. A guard is modelled by a number
  that identifies it and by this behaviour; a guard is taken not to call back into
  the modal context.
\<close>

datatype settlement = Fulfils "bool option" | Rejects

datatype behaviour = Throws | Awaits settlement

record guard =
  gid :: nat
  run :: behaviour

subsection \<open>Records, options and the state\<close>

text \<open>
  A registry entry is \<open>{ comp, props, meta }\<close>. \<open>props\<close> holds the caller's
  properties together with \<open>visible\<close> and \<open>style: { zIndex }\<close>; the type
  \<open>ExtractComponentOptions\<close> removes \<open>visible\<close>, \<open>onUpdate:visible\<close> and
  \<open>style\<close> from what a caller may pass, so the caller's bag and the two reserved
  entries are separate fields here. \<open>meta\<close> is \<open>isClosing\<close> (absent counts as
  false) and \<open>closePromises\<close>, a \<open>Map\<close> from the owning component's symbol to an
  array of guards. A \<open>Map\<close> iterates in insertion order, which the flattening in
  \<open>closeModal\<close> depends on, so it is an association list. \<open>comp\<close> is only handed
  to the renderer and is left out.
\<close>

record 'v modal =
  props :: "string \<rightharpoonup> 'v"
  visible :: bool
  zIndex :: number
  isClosing :: bool
  closePromises :: "(sym \<times> guard list) list"

text \<open>\<open>Map.prototype.set\<close>: an existing key keeps its position, a new key goes last.\<close>

fun map_set :: "'k \<Rightarrow> 'a \<Rightarrow> ('k \<times> 'a) list \<Rightarrow> ('k \<times> 'a) list" where
  "map_set k v [] = [(k, v)]"
| "map_set k v (p # ps) = (if fst p = k then (k, v) # ps else p # map_set k v ps)"

text \<open>\<open>Map.prototype.delete\<close>.\<close>

definition map_delete :: "'k \<Rightarrow> ('k \<times> 'a) list \<Rightarrow> ('k \<times> 'a) list" where
  "map_delete k m = filter (\<lambda>p. fst p \<noteq> k) m"

text \<open>
  The keys of \<open>ModalOptions\<close> are optional. A key can be absent, or present with the
  value \<open>undefined\<close> (which the type \<open>baseZIndex?: number\<close> admits), or present with
  a value; the spread \<open>{ ...DEFAULT_OPTIONS, ...options }\<close> copies every key that is
  present, so a key that is present with \<open>undefined\<close> overrides the default with
  \<open>undefined\<close>. In the merged options \<open>None\<close> is \<open>undefined\<close>.
\<close>

datatype 'a key = Absent | Undefined | Given 'a

record ModalOptions =
  opt_baseZIndex :: "int key"
  opt_allowMultiple :: "bool key"
  opt_debug :: "bool key"

record MergedOptions =
  baseZIndex :: "int option"
  allowMultiple :: "bool option"
  debug :: "bool option"

definition DEFAULT_OPTIONS :: MergedOptions where
  "DEFAULT_OPTIONS = \<lparr>baseZIndex = Some 1000, allowMultiple = Some True, debug = Some False\<rparr>"

definition spread :: "'a option \<Rightarrow> 'a key \<Rightarrow> 'a option" where
  "spread d k = (case k of Absent \<Rightarrow> d | Undefined \<Rightarrow> None | Given v \<Rightarrow> Some v)"

text \<open>\<open>{ ...DEFAULT_OPTIONS, ...options }\<close>\<close>

definition mergeOptions :: "ModalOptions \<Rightarrow> MergedOptions" where
  "mergeOptions options =
     \<lparr>baseZIndex = spread (baseZIndex DEFAULT_OPTIONS) (opt_baseZIndex options),
      allowMultiple = spread (allowMultiple DEFAULT_OPTIONS) (opt_allowMultiple options),
      debug = spread (debug DEFAULT_OPTIONS) (opt_debug options)\<rparr>"

text \<open>
  \<open>!mergedOptions.allowMultiple\<close> and \<open>if (mergedOptions.debug)\<close> read a merged option
  as a condition, where \<open>undefined\<close> counts as false.
\<close>

definition truthy :: "bool option \<Rightarrow> bool" where
  "truthy b = (b = Some True)"

text \<open>
  \<open>mergedOptions.baseZIndex + modalQueue.length\<close>: with \<open>baseZIndex\<close> \<open>undefined\<close> the
  sum is \<open>NaN\<close>.
\<close>

definition plus_length :: "int option \<Rightarrow> nat \<Rightarrow> number" where
  "plus_length b n = (case b of None \<Rightarrow> None | Some z \<Rightarrow> Some (z + int n))"

text \<open>
  A suspended invocation of \<open>closeModal\<close>: its argument \<open>id\<close>, the record in its
  local \<open>modal\<close>, how the value it awaits will settle, and the guards of \<open>allFns\<close>
  that the loop has not reached yet.
\<close>

record task =
  t_id :: sym
  t_modal :: addr
  awaited :: settlement
  rest :: "guard list"

text \<open>
  What the outside can observe besides the two structures: a guard was called, and
  \<open>console.error\<close> reported a guard's error. (\<open>log\<close> only prints when \<open>debug\<close> is
  set and is not modelled.)
\<close>

datatype event = Invoked nat | ErrorReported

record 'v state =
  options :: MergedOptions
  heap :: "addr \<Rightarrow> 'v modal"
  next_addr :: addr
  modalsMap :: "sym \<rightharpoonup> addr"
  modalQueue :: "sym list"
  tasks :: "tid \<rightharpoonup> task"
  next_tid :: tid
  trace :: "event list"

text \<open>
  The store is total; the addresses below \<open>next_addr\<close> are the records that have
  been created, and no operation reads another one (\<open>reachable_wf\<close> below).
\<close>

definition blank :: "'v modal" where
  "blank = \<lparr>props = Map.empty, visible = False, zIndex = None, isClosing = False, closePromises = []\<rparr>"

definition createModalContext :: "ModalOptions \<Rightarrow> 'v state" where
  "createModalContext opts =
     \<lparr>options = mergeOptions opts, heap = (\<lambda>_. blank), next_addr = 0, modalsMap = Map.empty,
      modalQueue = [], tasks = Map.empty, next_tid = 0, trace = []\<rparr>"

subsection \<open>Guard registration\<close>

definition addClosePromise :: "sym \<Rightarrow> sym \<Rightarrow> guard \<Rightarrow> 'v state \<Rightarrow> 'v state" where
  "addClosePromise modalId componentId fn s =
     (case modalsMap s modalId of
        None \<Rightarrow> s
      | Some a \<Rightarrow>
          let m = heap s a;
              componentPromises =
                (case map_of (closePromises m) componentId of None \<Rightarrow> [] | Some fs \<Rightarrow> fs)
          in s\<lparr>heap := (heap s)(a := m\<lparr>closePromises :=
                   map_set componentId (fn # componentPromises) (closePromises m)\<rparr>)\<rparr>)"

definition removeComponentPromises :: "sym \<Rightarrow> sym \<Rightarrow> 'v state \<Rightarrow> 'v state" where
  "removeComponentPromises modalId componentId s =
     (case modalsMap s modalId of
        None \<Rightarrow> s
      | Some a \<Rightarrow>
          s\<lparr>heap := (heap s)(a := (heap s a)\<lparr>closePromises :=
                map_delete componentId (closePromises (heap s a))\<rparr>)\<rparr>)"

subsection \<open>The close negotiation\<close>

text \<open>
  \<open>closeModal\<close> is an \<open>async\<close> function: it runs until its first \<open>await\<close>, and
  each later resumption runs until the next one. Its result is either the value its
  promise resolves to, or \<open>Pending\<close> with the identity of the suspended invocation.
  The function has no path on which its promise rejects: everything that can throw
  is inside the \<open>try\<close>.
\<close>

datatype close_result = Resolved bool | Pending tid

text \<open>The \<open>catch\<close> block (lines 167-171).\<close>

definition on_error :: "addr \<Rightarrow> 'v state \<Rightarrow> 'v state" where
  "on_error a s =
     s\<lparr>trace := trace s @ [ErrorReported],
       heap := (heap s)(a := (heap s a)\<lparr>isClosing := False\<rparr>)\<rparr>"

text \<open>The branch \<open>result === false\<close> (lines 160-165).\<close>

definition on_deny :: "addr \<Rightarrow> 'v state \<Rightarrow> 'v state" where
  "on_deny a s = s\<lparr>heap := (heap s)(a := (heap s a)\<lparr>isClosing := False, visible := True\<rparr>)\<rparr>"

text \<open>
  After the loop (lines 173-182). \<open>indexOf\<close> and \<open>splice(queueIndex, 1)\<close> remove
  the first occurrence of \<open>id\<close>, which is \<open>remove1\<close>.
\<close>

definition after_loop :: "sym \<Rightarrow> addr \<Rightarrow> 'v state \<Rightarrow> close_result \<times> 'v state" where
  "after_loop ident a s =
     (if isClosing (heap s a)
      then (Resolved True,
            s\<lparr>modalsMap := (modalsMap s)(ident := None), modalQueue := remove1 ident (modalQueue s)\<rparr>)
      else (Resolved False, s))"

text \<open>
  The loop \<open>for (const fn of allFns)\<close> from the head of an iteration up to the
  next suspension: with no guard left the code after the loop runs; otherwise the
  guard is called, and either it throws or the invocation \<open>t\<close> is suspended on what
  it returned.
\<close>

definition loop_next :: "tid \<Rightarrow> sym \<Rightarrow> addr \<Rightarrow> guard list \<Rightarrow> 'v state \<Rightarrow> close_result \<times> 'v state" where
  "loop_next t ident a fns s =
     (case fns of
        [] \<Rightarrow> after_loop ident a s
      | fn # fns' \<Rightarrow>
          let s1 = s\<lparr>trace := trace s @ [Invoked (gid fn)]\<rparr>
          in (case run fn of
                Throws \<Rightarrow> (Resolved False, on_error a s1)
              | Awaits st \<Rightarrow>
                  (Pending t,
                   s1\<lparr>tasks := (tasks s1)(t \<mapsto>
                         \<lparr>t_id = ident, t_modal = a, awaited = st, rest = fns'\<rparr>)\<rparr>)))"

text \<open>\<open>Array.from(modal.meta.closePromises.values()).flat()\<close>\<close>

definition allFns :: "'v modal \<Rightarrow> guard list" where
  "allFns m = concat (map snd (closePromises m))"

definition closeModal :: "sym \<Rightarrow> 'v state \<Rightarrow> close_result \<times> 'v state" where
  "closeModal ident s =
     (case modalsMap s ident of
        None \<Rightarrow> (Resolved False, s)
      | Some a \<Rightarrow>
          if isClosing (heap s a) then (Resolved False, s)
          else
            let s1 = s\<lparr>heap := (heap s)(a := (heap s a)\<lparr>visible := False, isClosing := True\<rparr>),
                       next_tid := Suc (next_tid s)\<rparr>
            in loop_next (next_tid s) ident a (allFns (heap s1 a)) s1)"

text \<open>
  The scheduler resumes the suspended invocation \<open>t\<close> once the value it awaits has
  settled: a rejection is thrown into the \<open>try\<close>, \<open>false\<close> takes the denial branch,
  anything else goes on with the loop. There is nothing to resume when \<open>t\<close> is not
  suspended.
\<close>

definition resume :: "tid \<Rightarrow> 'v state \<Rightarrow> (close_result \<times> 'v state) option" where
  "resume t s =
     (case tasks s t of
        None \<Rightarrow> None
      | Some k \<Rightarrow>
          let s0 = s\<lparr>tasks := (tasks s)(t := None)\<rparr>
          in Some (case awaited k of
                     Rejects \<Rightarrow> (Resolved False, on_error (t_modal k) s0)
                   | Fulfils result \<Rightarrow>
                       if result = Some False then (Resolved False, on_deny (t_modal k) s0)
                       else loop_next t (t_id k) (t_modal k) (rest k) s0))"

subsection \<open>The operations of \<open>makeModal\<close>\<close>

definition makeModal_isVisible :: "sym \<Rightarrow> 'v state \<Rightarrow> bool" where
  "makeModal_isVisible ident s =
     (case modalsMap s ident of None \<Rightarrow> False | Some a \<Rightarrow> visible (heap s a))"

text \<open>Lines 212-233: the new record, at a fresh address.\<close>

definition create :: "sym \<Rightarrow> (string \<rightharpoonup> 'v) \<Rightarrow> 'v state \<Rightarrow> 'v state" where
  "create ident p s =
     (let z = plus_length (baseZIndex (options s)) (length (modalQueue s));
          a = next_addr s
      in s\<lparr>modalQueue := modalQueue s @ [ident],
           heap := (heap s)(a := \<lparr>props = p, visible = True, zIndex = z, isClosing = False,
                                   closePromises = []\<rparr>),
           modalsMap := (modalsMap s)(ident \<mapsto> a),
           next_addr := Suc a\<rparr>)"

text \<open>
  Lines 193-200: the promise of the evicting \<open>closeModal\<close> is dropped, so only its
  effect on the state remains (and the suspended invocation, if any).
\<close>

definition evict :: "'v state \<Rightarrow> 'v state" where
  "evict s =
     (if \<not> truthy (allowMultiple (options s)) \<and> modalQueue s \<noteq> []
      then (let lastModalId = last (modalQueue s)
            in case modalsMap s lastModalId of
                 None \<Rightarrow> s
               | Some _ \<Rightarrow> snd (closeModal lastModalId s))
      else s)"

text \<open>Lines 202-233: the record of \<open>id\<close> is updated, or replaced, or created.\<close>

definition open_record :: "sym \<Rightarrow> (string \<rightharpoonup> 'v) \<Rightarrow> 'v state \<Rightarrow> 'v state" where
  "open_record ident p s =
     (case modalsMap s ident of
        None \<Rightarrow> create ident p s
      | Some a \<Rightarrow>
          let s1 = s\<lparr>heap := (heap s)(a := (heap s a)\<lparr>props := props (heap s a) ++ p\<rparr>)\<rparr>
          in if \<not> isClosing (heap s1 a) then s1
             else create ident p
                    (s1\<lparr>heap := (heap s1)(a := (heap s1 a)\<lparr>isClosing := False\<rparr>),
                        modalsMap := (modalsMap s1)(ident := None)\<rparr>))"

definition makeModal_open :: "sym \<Rightarrow> (string \<rightharpoonup> 'v) \<Rightarrow> 'v state \<Rightarrow> 'v state" where
  "makeModal_open ident p s = open_record ident p (evict s)"

definition makeModal_close :: "sym \<Rightarrow> 'v state \<Rightarrow> close_result \<times> 'v state" where
  "makeModal_close ident s =
     (case modalsMap s ident of None \<Rightarrow> (Resolved False, s) | Some _ \<Rightarrow> closeModal ident s)"

subsection \<open>Running a negotiation to its end\<close>

text \<open>
  \<open>drain t\<close> resumes the invocation \<open>t\<close> until its promise resolves, with nothing
  else scheduled in between. Each resumption that suspends again has consumed one
  guard, which bounds the number of steps.
\<close>

function drain :: "tid \<Rightarrow> 'v state \<Rightarrow> (bool \<times> 'v state) option" where
  "drain t s =
     (case resume t s of
        None \<Rightarrow> None
      | Some (Resolved b, s') \<Rightarrow> Some (b, s')
      | Some (Pending t', s') \<Rightarrow> drain t' s')"
  by pat_completeness auto
termination
proof (relation "measure (\<lambda>(t, s). case tasks s t of None \<Rightarrow> 0 | Some k \<Rightarrow> Suc (length (rest k)))")
  show "wf (measure (\<lambda>(t, s :: 'v state). case tasks s t of None \<Rightarrow> 0 | Some k \<Rightarrow> Suc (length (rest k))))"
    by simp
next
  fix t :: tid and s :: "'v state" and x2 x1 s' t'
  assume "resume t s = Some x2" and "(x1, s') = x2" and "x1 = Pending t'"
  then have "resume t s = Some (Pending t', s')" by simp
  then have "\<exists>k k'. tasks s t = Some k \<and> tasks s' t' = Some k' \<and> length (rest k') < length (rest k)"
    by (auto simp: resume_def loop_next_def after_loop_def Let_def
        split: option.splits settlement.splits if_splits list.splits behaviour.splits)
  then show
    "((t', s'), t, s) \<in> measure (\<lambda>(t, s). case tasks s t of None \<Rightarrow> 0 | Some k \<Rightarrow> Suc (length (rest k)))"
    by auto
qed

declare drain.simps [simp del]

text \<open>A whole call of \<open>closeModal\<close>, awaited by its caller.\<close>

definition run_close :: "sym \<Rightarrow> 'v state \<Rightarrow> (bool \<times> 'v state) option" where
  "run_close ident s =
     (case closeModal ident s of
        (Resolved b, s') \<Rightarrow> Some (b, s')
      | (Pending t, s') \<Rightarrow> drain t s')"

section \<open>Notions for stating the properties\<close>

subsection \<open>The negotiation as one function of the guards\<close>

text \<open>
  What a guard's call amounts to for the negotiation: it lets the close go on (the
  awaited value is \<open>undefined\<close> or \<open>true\<close>), it denies (\<open>false\<close>), or it fails (it
  throws, or what it returned rejects).
\<close>

definition allows :: "guard \<Rightarrow> bool" where
  "allows g = (run g = Awaits (Fulfils None) \<or> run g = Awaits (Fulfils (Some True)))"

definition denies :: "guard \<Rightarrow> bool" where
  "denies g = (run g = Awaits (Fulfils (Some False)))"

definition fails :: "guard \<Rightarrow> bool" where
  "fails g = (run g = Throws \<or> run g = Awaits Rejects)"

text \<open>
  The loop of \<open>closeModal\<close> over a list of guards without the suspensions: what an
  invocation that is resumed until its end does to the state, apart from its own
  entry in \<open>tasks\<close> (\<open>drain_resumed\<close>, \<open>run_close_negotiate\<close>).
\<close>

fun negotiate :: "sym \<Rightarrow> addr \<Rightarrow> guard list \<Rightarrow> 'v state \<Rightarrow> bool \<times> 'v state" where
  "negotiate ident a [] s =
     (if isClosing (heap s a)
      then (True, s\<lparr>modalsMap := (modalsMap s)(ident := None), modalQueue := remove1 ident (modalQueue s)\<rparr>)
      else (False, s))"
| "negotiate ident a (fn # fns) s =
     (let s1 = s\<lparr>trace := trace s @ [Invoked (gid fn)]\<rparr>
      in case run fn of
           Throws \<Rightarrow> (False, on_error a s1)
         | Awaits Rejects \<Rightarrow> (False, on_error a s1)
         | Awaits (Fulfils result) \<Rightarrow>
             if result = Some False then (False, on_deny a s1) else negotiate ident a fns s1)"

text \<open>The rest of a suspended invocation, from the settlement of what it awaits.\<close>

definition resumed :: "task \<Rightarrow> 'v state \<Rightarrow> bool \<times> 'v state" where
  "resumed k s =
     (case awaited k of
        Rejects \<Rightarrow> (False, on_error (t_modal k) s)
      | Fulfils result \<Rightarrow>
          if result = Some False then (False, on_deny (t_modal k) s)
          else negotiate (t_id k) (t_modal k) (rest k) s)"

text \<open>Lines 148-149: the record is hidden and marked before the guards run.\<close>

definition closing :: "addr \<Rightarrow> 'v state \<Rightarrow> 'v state" where
  "closing a s =
     s\<lparr>heap := (heap s)(a := (heap s a)\<lparr>visible := False, isClosing := True\<rparr>),
       next_tid := Suc (next_tid s)\<rparr>"

subsection \<open>Which guards a negotiation calls\<close>

text \<open>The guards called of a list: up to and including the first that does not allow.\<close>

fun called :: "guard list \<Rightarrow> guard list" where
  "called [] = []"
| "called (g # gs) = g # (if allows g then called gs else [])"

text \<open>The guard calls recorded in a trace, in order.\<close>

fun invocations :: "event list \<Rightarrow> nat list" where
  "invocations [] = []"
| "invocations (Invoked n # es) = n # invocations es"
| "invocations (ErrorReported # es) = invocations es"

text \<open>\<open>props.style.zIndex\<close> of the record of a modal.\<close>

definition zIndexOf :: "sym \<Rightarrow> 'v state \<Rightarrow> number option" where
  "zIndexOf ident s = map_option (\<lambda>a. zIndex (heap s a)) (modalsMap s ident)"

subsection \<open>Reachable states\<close>

text \<open>
  The states of a context: it is created, and then the operations and the scheduler
  act on it in any order. A step \<open>resume\<close> is the continuation of an earlier
  \<open>closeModal\<close>. (The handler \<open>onUpdate:visible\<close> of \<open>ModalRenderer\<close>, which also
  writes \<open>props.visible\<close>, is not among the steps.)
\<close>

inductive reachable :: "'v state \<Rightarrow> bool" where
  r_create: "reachable (createModalContext opts)"
| r_open: "reachable s \<Longrightarrow> reachable (makeModal_open ident p s)"
| r_closeModal: "reachable s \<Longrightarrow> reachable (snd (closeModal ident s))"
| r_close: "reachable s \<Longrightarrow> reachable (snd (makeModal_close ident s))"
| r_add: "reachable s \<Longrightarrow> reachable (addClosePromise modalId componentId fn s)"
| r_remove: "reachable s \<Longrightarrow> reachable (removeComponentPromises modalId componentId s)"
| r_resume: "reachable s \<Longrightarrow> resume t s = Some (r, s') \<Longrightarrow> reachable s'"

text \<open>
  What holds of the addresses in every reachable state: the registry's records are
  distinct records that have been created, every identity in the registry is in the
  Open Queue, and a suspended invocation holds a record that has been created.
\<close>

definition wf_state :: "'v state \<Rightarrow> bool" where
  "wf_state s =
     ((\<forall>i a. modalsMap s i = Some a \<longrightarrow> a < next_addr s \<and> i \<in> set (modalQueue s)) \<and>
      (\<forall>i j a. modalsMap s i = Some a \<longrightarrow> modalsMap s j = Some a \<longrightarrow> i = j) \<and>
      (\<forall>t k. tasks s t = Some k \<longrightarrow> t < next_tid s \<and> t_modal k < next_addr s))"

text \<open>One operation, or one resumption by the scheduler.\<close>

inductive step :: "'v state \<Rightarrow> 'v state \<Rightarrow> bool" where
  s_open: "step s (makeModal_open ident p s)"
| s_closeModal: "step s (snd (closeModal ident s))"
| s_close: "step s (snd (makeModal_close ident s))"
| s_add: "step s (addClosePromise modalId componentId fn s)"
| s_remove: "step s (removeComponentPromises modalId componentId s)"
| s_resume: "resume t s = Some (r, s') \<Longrightarrow> step s s'"

text \<open>
  A record that \<open>open\<close> has replaced: it has been created, the registry does not hold
  it, and it is not closing. No step changes that: a new record gets a new address,
  and only \<open>closeModal\<close> sets \<open>isClosing\<close>, on a record of the registry.
\<close>

definition replaced :: "addr \<Rightarrow> 'v state \<Rightarrow> bool" where
  "replaced a s = (a < next_addr s \<and> (\<forall>i. modalsMap s i \<noteq> Some a) \<and> \<not> isClosing (heap s a))"

text \<open>No guard error has been reported so far.\<close>

definition quiet :: "'v state \<Rightarrow> bool" where
  "quiet s = (ErrorReported \<notin> set (trace s))"

subsection \<open>Records whose close a guard error has aborted\<close>

text \<open>
  A step reports a guard error when \<open>console.error\<close> is the last thing it adds to the
  trace (the \<open>catch\<close> block ends the negotiation).
\<close>

definition reports :: "'v state \<Rightarrow> 'v state \<Rightarrow> bool" where
  "reports s s' = (length (trace s) < length (trace s') \<and> last (trace s') = ErrorReported)"

text \<open>
  The record \<open>a\<close> of the negotiation that ran in a step from \<open>s\<close> to \<open>s'\<close>, when the step
  reported a guard error.
\<close>

definition aborted_by :: "addr option \<Rightarrow> 'v state \<Rightarrow> 'v state \<Rightarrow> addr set" where
  "aborted_by a s s' = (if reports s s' then set_option a else {})"

text \<open>
  \<open>tracked E s\<close>: the state \<open>s\<close> has been reached, and \<open>E\<close> is the set of the records
  whose close negotiation a guard error has aborted on the way. The negotiation that
  runs in a step is the one of the record of \<open>id\<close> for \<open>closeModal(id)\<close>, of the record
  of the last entry of the Open Queue for the eviction in \<open>open\<close>, and of the record
  held by the invocation for a resumption.
\<close>

inductive tracked :: "addr set \<Rightarrow> 'v state \<Rightarrow> bool" where
  t_create: "tracked {} (createModalContext opts)"
| t_open: "tracked E s \<Longrightarrow>
     tracked (E \<union> aborted_by (modalsMap s (last (modalQueue s))) s (evict s))
       (makeModal_open ident p s)"
| t_closeModal: "tracked E s \<Longrightarrow>
     tracked (E \<union> aborted_by (modalsMap s ident) s (snd (closeModal ident s)))
       (snd (closeModal ident s))"
| t_close: "tracked E s \<Longrightarrow>
     tracked (E \<union> aborted_by (modalsMap s ident) s (snd (makeModal_close ident s)))
       (snd (makeModal_close ident s))"
| t_add: "tracked E s \<Longrightarrow> tracked E (addClosePromise modalId componentId fn s)"
| t_remove: "tracked E s \<Longrightarrow> tracked E (removeComponentPromises modalId componentId s)"
| t_resume: "tracked E s \<Longrightarrow> resume t s = Some (r, s') \<Longrightarrow>
     tracked (E \<union> aborted_by (map_option t_modal (tasks s t)) s s') s'"

text \<open>Every record of the registry is visible, or closing, or in \<open>E\<close>.\<close>

definition covered :: "addr set \<Rightarrow> 'v state \<Rightarrow> bool" where
  "covered E s =
     (\<forall>i a. modalsMap s i = Some a \<longrightarrow> visible (heap s a) \<or> isClosing (heap s a) \<or> a \<in> E)"

subsection \<open>Example states\<close>

text \<open>
  A context with the default options and one with \<open>allowMultiple: false\<close>; guards of
  each kind; modal \<open>1\<close> opened, and then guarded by owner \<open>5\<close> (first \<open>g\<close>, then a guard
  returning \<open>true\<close>) and by owner \<open>6\<close>.
\<close>

definition no_options :: ModalOptions where
  "no_options = \<lparr>opt_baseZIndex = Absent, opt_allowMultiple = Absent, opt_debug = Absent\<rparr>"

definition single :: ModalOptions where
  "single = \<lparr>opt_baseZIndex = Absent, opt_allowMultiple = Given False, opt_debug = Absent\<rparr>"

definition g_ok :: "nat \<Rightarrow> guard" where
  "g_ok n = \<lparr>gid = n, run = Awaits (Fulfils None)\<rparr>"

definition g_true :: "nat \<Rightarrow> guard" where
  "g_true n = \<lparr>gid = n, run = Awaits (Fulfils (Some True))\<rparr>"

definition g_false :: "nat \<Rightarrow> guard" where
  "g_false n = \<lparr>gid = n, run = Awaits (Fulfils (Some False))\<rparr>"

definition g_throws :: "nat \<Rightarrow> guard" where
  "g_throws n = \<lparr>gid = n, run = Throws\<rparr>"

definition g_rejects :: "nat \<Rightarrow> guard" where
  "g_rejects n = \<lparr>gid = n, run = Awaits Rejects\<rparr>"

definition opened :: "nat state" where
  "opened = makeModal_open 1 Map.empty (createModalContext no_options)"

definition guarded :: "guard \<Rightarrow> nat state" where
  "guarded g =
     addClosePromise 1 6 (g_ok 3)
       (addClosePromise 1 5 (g_true 2) (addClosePromise 1 5 g opened))"

text \<open>
  The scenario of the stacking property: \<open>A\<close>, \<open>B\<close> and \<open>C\<close> are opened, \<open>B\<close> is
  closed, \<open>D\<close> is opened.
\<close>

definition after_ABC :: "ModalOptions \<Rightarrow> sym \<Rightarrow> sym \<Rightarrow> sym \<Rightarrow> 'v state" where
  "after_ABC opts A B C =
     makeModal_open C Map.empty (makeModal_open B Map.empty
       (makeModal_open A Map.empty (createModalContext opts)))"

definition then_D :: "sym \<Rightarrow> 'v state \<Rightarrow> 'v state" where
  "then_D D s = makeModal_open D Map.empty s"

text \<open>
  More example states: modal \<open>1\<close> with the one guard \<open>g\<close>, a close of it that is
  suspended on \<open>g\<close>, and \<open>open\<close> called again meanwhile.
\<close>

definition pending :: "guard \<Rightarrow> nat state" where
  "pending g = snd (closeModal 1 (addClosePromise 1 5 g opened))"

definition reopened :: "guard \<Rightarrow> nat state" where
  "reopened g = makeModal_open 1 [''title'' \<mapsto> 7] (pending g)"

text \<open>A close that a throwing guard has aborted.\<close>

definition aborted :: "nat state" where
  "aborted = snd (closeModal 1 (addClosePromise 1 5 (g_throws 1) opened))"

text \<open>Modal \<open>1\<close> with the one guard \<open>g\<close>, in a context with \<open>allowMultiple: false\<close>.\<close>

definition lone :: "guard \<Rightarrow> nat state" where
  "lone g = addClosePromise 1 5 g (makeModal_open 1 Map.empty (createModalContext single))"

text \<open>
  A context with \<open>allowMultiple: false\<close> in which the last entry of the Open Queue has
  no record. Modal \<open>2\<close> is opened with a denying guard; opening \<open>1\<close> starts the
  eviction of \<open>2\<close> (\<open>evicting\<close>), which the guard denies (\<open>kept\<close>). A close of \<open>1\<close> is
  suspended on a guard of \<open>1\<close> (\<open>reclosing\<close>); \<open>1\<close> is opened again and closed, and the
  suspended close is resumed (\<open>closed_again\<close>). At last the guard of \<open>2\<close> is replaced by
  an allowing one (\<open>stale\<close>).
\<close>

definition evicting :: "nat state" where
  "evicting =
     makeModal_open 1 Map.empty
       (addClosePromise 2 6 (g_false 2) (makeModal_open 2 Map.empty (createModalContext single)))"

definition kept :: "nat state" where
  "kept = snd (the (resume 0 evicting))"

definition reclosing :: "nat state" where
  "reclosing = snd (closeModal 1 (addClosePromise 1 5 (g_ok 1) kept))"

definition closed_again :: "nat state" where
  "closed_again =
     snd (the (resume 1 (snd (closeModal 1 (makeModal_open 1 Map.empty reclosing)))))"

definition stale :: "nat state" where
  "stale = addClosePromise 2 6 (g_true 3) (removeComponentPromises 2 6 closed_again)"

section \<open>Properties of the model\<close>

subsection \<open>The negotiation, step by step and as a whole\<close>

lemma drain_resumed:
  "tasks s t = Some k \<Longrightarrow> drain t s = Some (resumed k (s\<lparr>tasks := (tasks s)(t := None)\<rparr>))"
proof (induction "rest k" arbitrary: s k)
  case Nil
  then show ?case
    by (subst drain.simps)
       (auto simp: resume_def resumed_def loop_next_def after_loop_def Let_def
             split: settlement.splits)
next
  case (Cons g gs)
  show ?case
  proof (cases "\<exists>st. run g = Awaits st \<and> (\<exists>r. awaited k = Fulfils r \<and> r \<noteq> Some False)")
    case False
    with Cons.prems Cons.hyps(2) [symmetric] show ?thesis
      by (subst drain.simps)
         (auto simp: resume_def resumed_def loop_next_def Let_def
               split: settlement.splits behaviour.splits)
  next
    case True
    then obtain st r where st: "run g = Awaits st" and r: "awaited k = Fulfils r" "r \<noteq> Some False"
      by blast
    let ?k' = "\<lparr>t_id = t_id k, t_modal = t_modal k, awaited = st, rest = gs\<rparr>"
    let ?s' = "s\<lparr>tasks := (tasks s)(t \<mapsto> ?k'), trace := trace s @ [Invoked (gid g)]\<rparr>"
    have step: "resume t s = Some (Pending t, ?s')"
      using Cons.prems Cons.hyps(2) [symmetric] st r
      by (simp add: resume_def loop_next_def Let_def)
    let ?s0 = "s\<lparr>tasks := (tasks s)(t := None)\<rparr>"
    have eq: "?s'\<lparr>tasks := (tasks ?s')(t := None)\<rparr> = ?s0\<lparr>trace := trace ?s0 @ [Invoked (gid g)]\<rparr>"
      by simp
    have "drain t ?s' = Some (resumed ?k' (?s'\<lparr>tasks := (tasks ?s')(t := None)\<rparr>))"
      by (rule Cons.hyps(1)) simp_all
    then have 1: "drain t ?s' = Some (resumed ?k' (?s0\<lparr>trace := trace ?s0 @ [Invoked (gid g)]\<rparr>))"
      by (simp only: eq)
    have 2: "drain t s = drain t ?s'"
      by (subst drain.simps) (simp add: step)
    have 3: "resumed k ?s0 = resumed ?k' (?s0\<lparr>trace := trace ?s0 @ [Invoked (gid g)]\<rparr>)"
      using Cons.hyps(2) [symmetric] st r
      by (cases st) (simp_all add: resumed_def Let_def)
    show ?thesis
      by (simp only: 1 2 3)
  qed
qed

lemma allFns_flags [simp]:
  "allFns (m\<lparr>visible := v, isClosing := c\<rparr>) = allFns m"
  by (simp add: allFns_def)

lemma negotiate_tasks_aux:
  "s' = s\<lparr>tasks := tk\<rparr> \<Longrightarrow>
   negotiate ident a fns s' = (case negotiate ident a fns s of (b, r) \<Rightarrow> (b, r\<lparr>tasks := tk\<rparr>))"
proof (induction fns arbitrary: s s')
  case Nil
  then show ?case by simp
next
  case (Cons g gs)
  have "negotiate ident a gs (s'\<lparr>trace := trace s' @ [Invoked (gid g)]\<rparr>) =
        (case negotiate ident a gs (s\<lparr>trace := trace s @ [Invoked (gid g)]\<rparr>) of
           (b, r) \<Rightarrow> (b, r\<lparr>tasks := tk\<rparr>))"
    by (rule Cons.IH) (simp add: Cons.prems)
  then show ?case
    using Cons.prems
    by (simp add: Let_def on_error_def on_deny_def split: behaviour.splits settlement.splits)
qed

lemma negotiate_tasks:
  "negotiate ident a fns (s\<lparr>tasks := tk\<rparr>) =
     (case negotiate ident a fns s of (b, r) \<Rightarrow> (b, r\<lparr>tasks := tk\<rparr>))"
  by (rule negotiate_tasks_aux) simp

lemma negotiate_allows:
  "\<forall>p\<in>set pre. allows p \<Longrightarrow>
   negotiate ident a (pre @ fns) s =
   negotiate ident a fns (s\<lparr>trace := trace s @ map (Invoked \<circ> gid) pre\<rparr>)"
  by (induction pre arbitrary: s) (auto simp: allows_def Let_def)

lemma run_close_negotiate:
  assumes "modalsMap s ident = Some a" and "\<not> isClosing (heap s a)"
  shows "\<exists>tk. run_close ident s =
           Some (case negotiate ident a (allFns (heap s a)) (closing a s) of
                   (b, r) \<Rightarrow> (b, r\<lparr>tasks := tk\<rparr>))"
proof (cases "allFns (heap s a)")
  case Nil
  have "run_close ident s =
          Some (case negotiate ident a (allFns (heap s a)) (closing a s) of
                  (b, r) \<Rightarrow> (b, r\<lparr>tasks := tasks s\<rparr>))"
    using assms Nil
    by (simp add: run_close_def closeModal_def loop_next_def after_loop_def closing_def
        Let_def)
  then show ?thesis by blast
next
  case (Cons g gs)
  show ?thesis
  proof (cases "run g")
    case Throws
    have "run_close ident s =
            Some (case negotiate ident a (allFns (heap s a)) (closing a s) of
                    (b, r) \<Rightarrow> (b, r\<lparr>tasks := tasks s\<rparr>))"
      using assms Cons Throws
      by (simp add: run_close_def closeModal_def loop_next_def closing_def on_error_def
          Let_def)
    then show ?thesis by blast
  next
    case (Awaits st)
    let ?t = "next_tid s"
    let ?k = "\<lparr>t_id = ident, t_modal = a, awaited = st, rest = gs\<rparr>"
    let ?s1 = "(closing a s)\<lparr>trace := trace s @ [Invoked (gid g)]\<rparr>"
    let ?s' = "?s1\<lparr>tasks := (tasks s)(?t \<mapsto> ?k)\<rparr>"
    have cm: "closeModal ident s = (Pending ?t, ?s')"
      using assms Cons Awaits
      by (simp add: closeModal_def loop_next_def closing_def Let_def)
    have "drain ?t ?s' = Some (resumed ?k (?s'\<lparr>tasks := (tasks ?s')(?t := None)\<rparr>))"
      by (rule drain_resumed) simp
    moreover have "?s'\<lparr>tasks := (tasks ?s')(?t := None)\<rparr> = ?s1\<lparr>tasks := (tasks s)(?t := None)\<rparr>"
      by simp
    ultimately have dr: "drain ?t ?s' = Some (resumed ?k (?s1\<lparr>tasks := (tasks s)(?t := None)\<rparr>))"
      by (simp only:)
    have ng: "negotiate ident a (g # gs) (closing a s) = resumed ?k ?s1"
      using Awaits by (cases st) (simp_all add: resumed_def Let_def closing_def)
    have "resumed ?k (?s1\<lparr>tasks := (tasks s)(?t := None)\<rparr>) =
            (case resumed ?k ?s1 of (b, r) \<Rightarrow> (b, r\<lparr>tasks := (tasks s)(?t := None)\<rparr>))"
      by (cases st) (simp_all add: resumed_def negotiate_tasks on_error_def on_deny_def)
    with dr ng Cons cm have "run_close ident s =
            Some (case negotiate ident a (allFns (heap s a)) (closing a s) of
                    (b, r) \<Rightarrow> (b, r\<lparr>tasks := (tasks s)(?t := None)\<rparr>))"
      by (simp add: run_close_def)
    then show ?thesis by blast
  qed
qed

lemma negotiate_True:
  "negotiate ident a fns s = (True, r) \<Longrightarrow> modalsMap r ident = None"
  by (induction fns arbitrary: s)
     (auto simp: Let_def split: behaviour.splits settlement.splits if_splits)

lemma negotiate_denies:
  "denies g \<Longrightarrow>
   negotiate ident a (g # fns) s = (False, on_deny a (s\<lparr>trace := trace s @ [Invoked (gid g)]\<rparr>))"
  by (simp add: denies_def Let_def)

lemma negotiate_fails:
  "fails g \<Longrightarrow>
   negotiate ident a (g # fns) s = (False, on_error a (s\<lparr>trace := trace s @ [Invoked (gid g)]\<rparr>))"
  by (auto simp: fails_def Let_def)

lemma run_close_True:
  assumes "run_close ident s = Some (True, s')"
  shows "modalsMap s' ident = None"
proof (cases "modalsMap s ident")
  case None
  with assms show ?thesis by (simp add: run_close_def closeModal_def)
next
  case (Some a)
  show ?thesis
  proof (cases "isClosing (heap s a)")
    case True
    with assms Some show ?thesis by (simp add: run_close_def closeModal_def)
  next
    case False
    from run_close_negotiate [OF Some False] obtain tk where
      "run_close ident s =
         Some (case negotiate ident a (allFns (heap s a)) (closing a s) of
                 (b, r) \<Rightarrow> (b, r\<lparr>tasks := tk\<rparr>))" ..
    with assms obtain r where "negotiate ident a (allFns (heap s a)) (closing a s) = (True, r)"
      and "s' = r\<lparr>tasks := tk\<rparr>"
      by (auto split: prod.splits)
    then show ?thesis by (simp add: negotiate_True)
  qed
qed

lemma all_allow:
  assumes "modalsMap s ident = Some a" and "\<not> isClosing (heap s a)"
    and "\<forall>p\<in>set (allFns (heap s a)). allows p"
  shows "\<exists>s'. run_close ident s = Some (True, s') \<and>
           trace s' = trace s @ map (Invoked \<circ> gid) (allFns (heap s a)) \<and>
           modalsMap s' = (modalsMap s)(ident := None) \<and>
           modalQueue s' = remove1 ident (modalQueue s) \<and>
           heap s' = heap (closing a s) \<and> next_addr s' = next_addr s \<and> options s' = options s"
proof -
  from run_close_negotiate [OF assms(1,2)] obtain tk where
    "run_close ident s =
       Some (case negotiate ident a (allFns (heap s a)) (closing a s) of
               (b, r) \<Rightarrow> (b, r\<lparr>tasks := tk\<rparr>))" ..
  moreover have "negotiate ident a (allFns (heap s a) @ []) (closing a s) =
     negotiate ident a [] (closing a s\<lparr>trace := trace (closing a s) @ map (Invoked \<circ> gid) (allFns (heap s a))\<rparr>)"
    using assms(3) by (rule negotiate_allows)
  ultimately show ?thesis
    by (simp add: closing_def)
qed

subsection \<open>Evaluating the examples\<close>

lemmas model_defs =
  createModalContext_def mergeOptions_def spread_def truthy_def plus_length_def
  DEFAULT_OPTIONS_def makeModal_open_def open_record_def evict_def
  create_def addClosePromise_def removeComponentPromises_def map_delete_def closeModal_def
  loop_next_def after_loop_def on_error_def on_deny_def resume_def makeModal_close_def
  makeModal_isVisible_def run_close_def allFns_def allows_def denies_def fails_def Let_def

lemmas guard_defs = g_ok_def g_true_def g_false_def g_throws_def g_rejects_def

lemma gid_examples [simp]:
  "gid (g_ok n) = n" "gid (g_true n) = n" "gid (g_false n) = n"
  "gid (g_throws n) = n" "gid (g_rejects n) = n"
  by (simp_all add: guard_defs)

subsection \<open>The guards a negotiation calls\<close>

lemma invocations_append [simp]:
  "invocations (es @ fs) = invocations es @ invocations fs"
  by (induction es rule: invocations.induct) simp_all

lemma negotiate_invocations:
  "invocations (trace (snd (negotiate ident a fns s))) =
     invocations (trace s) @ map gid (called fns)"
  by (induction fns arbitrary: s)
     (auto simp: Let_def allows_def on_error_def on_deny_def
           split: behaviour.splits settlement.splits option.splits bool.splits)

lemma run_close_invocations:
  assumes "modalsMap s ident = Some a" and "\<not> isClosing (heap s a)"
  shows "\<exists>b s'. run_close ident s = Some (b, s') \<and>
           invocations (trace s') = invocations (trace s) @ map gid (called (allFns (heap s a)))"
proof -
  from run_close_negotiate [OF assms] obtain tk where
    rc: "run_close ident s =
       Some (case negotiate ident a (allFns (heap s a)) (closing a s) of
               (b, r) \<Rightarrow> (b, r\<lparr>tasks := tk\<rparr>))" ..
  obtain b r where n: "negotiate ident a (allFns (heap s a)) (closing a s) = (b, r)"
    by (cases "negotiate ident a (allFns (heap s a)) (closing a s)")
  from negotiate_invocations [of ident a "allFns (heap s a)" "closing a s"] n
  have "invocations (trace r) = invocations (trace s) @ map gid (called (allFns (heap s a)))"
    by (simp add: closing_def)
  with rc n show ?thesis by simp
qed

subsection \<open>Opening modals that have no record\<close>

lemma create_simps [simp]:
  "modalQueue (create ident p s) = modalQueue s @ [ident]"
  "modalsMap (create ident p s) = (modalsMap s)(ident \<mapsto> next_addr s)"
  "next_addr (create ident p s) = Suc (next_addr s)"
  "options (create ident p s) = options s"
  "tasks (create ident p s) = tasks s"
  "next_tid (create ident p s) = next_tid s"
  "trace (create ident p s) = trace s"
  "heap (create ident p s) =
     (heap s)(next_addr s :=
        \<lparr>props = p, visible = True,
         zIndex = plus_length (baseZIndex (options s)) (length (modalQueue s)),
         isClosing = False, closePromises = []\<rparr>)"
  by (simp_all add: create_def Let_def)

lemma open_new:
  "truthy (allowMultiple (options s)) \<Longrightarrow> modalsMap s ident = None \<Longrightarrow>
   makeModal_open ident p s = create ident p s"
  by (simp add: makeModal_open_def open_record_def evict_def)

lemma allowMultiple_merge:
  "opt_allowMultiple opts = Absent \<or> opt_allowMultiple opts = Given True \<Longrightarrow>
   truthy (allowMultiple (mergeOptions opts))"
  by (auto simp: mergeOptions_def spread_def truthy_def DEFAULT_OPTIONS_def)

lemma after_ABC_eq:
  assumes "distinct [A, B, C]"
    and "opt_allowMultiple opts = Absent \<or> opt_allowMultiple opts = Given True"
  shows "modalQueue (after_ABC opts A B C :: 'v state) = [A, B, C]"
    and "modalsMap (after_ABC opts A B C :: 'v state) = [A \<mapsto> 0, B \<mapsto> 1, C \<mapsto> 2]"
    and "allFns (heap (after_ABC opts A B C :: 'v state) 1) = []"
    and "\<not> isClosing (heap (after_ABC opts A B C :: 'v state) 1)"
    and "zIndex (heap (after_ABC opts A B C :: 'v state) 2) = plus_length (baseZIndex (mergeOptions opts)) 2"
    and "options (after_ABC opts A B C :: 'v state) = mergeOptions opts"
    and "next_addr (after_ABC opts A B C :: 'v state) = 3"
proof -
  let ?s0 = "createModalContext opts :: 'v state"
  have am: "truthy (allowMultiple (mergeOptions opts))"
    using assms(2) by (rule allowMultiple_merge)
  have s0: "options ?s0 = mergeOptions opts" "modalsMap ?s0 = Map.empty" "modalQueue ?s0 = []"
    "next_addr ?s0 = 0"
    by (simp_all add: createModalContext_def)
  have 1: "makeModal_open A Map.empty ?s0 = create A Map.empty ?s0"
    by (rule open_new) (simp_all add: s0 am)
  let ?s1 = "create A Map.empty ?s0"
  have 2: "makeModal_open B Map.empty ?s1 = create B Map.empty ?s1"
    using assms(1) by (intro open_new) (simp_all add: s0 am)
  let ?s2 = "create B Map.empty ?s1"
  have 3: "makeModal_open C Map.empty ?s2 = create C Map.empty ?s2"
    using assms(1) by (intro open_new) (simp_all add: s0 am)
  have eq: "(after_ABC opts A B C :: 'v state) = create C Map.empty ?s2"
    by (simp only: after_ABC_def 1 2 3)
  show "modalQueue (after_ABC opts A B C :: 'v state) = [A, B, C]"
    by (simp add: eq s0)
  show "modalsMap (after_ABC opts A B C :: 'v state) = [A \<mapsto> 0, B \<mapsto> 1, C \<mapsto> 2]"
    by (simp add: eq s0 numeral_2_eq_2)
  show "allFns (heap (after_ABC opts A B C :: 'v state) 1) = []"
    by (simp add: eq s0 allFns_def)
  show "\<not> isClosing (heap (after_ABC opts A B C :: 'v state) 1)"
    by (simp add: eq s0)
  show "zIndex (heap (after_ABC opts A B C :: 'v state) 2) = plus_length (baseZIndex (mergeOptions opts)) 2"
    by (simp add: eq s0 numeral_2_eq_2)
  show "options (after_ABC opts A B C :: 'v state) = mergeOptions opts"
    by (simp add: eq s0)
  show "next_addr (after_ABC opts A B C :: 'v state) = 3"
    by (simp add: eq s0 numeral_3_eq_3)
qed

subsection \<open>The addresses of reachable states\<close>

lemma wf_create: "wf_state (createModalContext opts)"
  by (simp add: wf_state_def createModalContext_def)

lemma wf_closeModal: "wf_state s \<Longrightarrow> wf_state (snd (closeModal ident s))"
  unfolding wf_state_def closeModal_def loop_next_def after_loop_def on_error_def Let_def
  by (auto split: option.splits list.splits behaviour.splits if_splits simp: less_Suc_eq)

lemma wf_resume: "wf_state s \<Longrightarrow> resume t s = Some (r, s') \<Longrightarrow> wf_state s'"
  unfolding wf_state_def resume_def loop_next_def after_loop_def on_error_def on_deny_def Let_def
  by (auto split: option.splits list.splits behaviour.splits settlement.splits if_splits)

lemma wf_add: "wf_state s \<Longrightarrow> wf_state (addClosePromise m c fn s)"
  unfolding wf_state_def addClosePromise_def Let_def
  by (auto split: option.splits)

lemma wf_remove: "wf_state s \<Longrightarrow> wf_state (removeComponentPromises m c s)"
  unfolding wf_state_def removeComponentPromises_def
  by (auto split: option.splits)

lemma wf_evict: "wf_state s \<Longrightarrow> wf_state (evict s)"
  by (auto simp: evict_def Let_def wf_closeModal split: option.splits)

lemma wf_open_record: "wf_state s \<Longrightarrow> wf_state (open_record ident p s)"
  unfolding wf_state_def open_record_def create_def Let_def
  by (auto split: option.splits if_splits simp: less_Suc_eq)

lemma wf_open: "wf_state s \<Longrightarrow> wf_state (makeModal_open ident p s)"
  by (simp add: makeModal_open_def wf_open_record wf_evict)

lemma reachable_wf: "reachable s \<Longrightarrow> wf_state s"
proof (induction rule: reachable.induct)
  case (r_create opts)
  show ?case by (rule wf_create)
next
  case (r_open s ident p)
  then show ?case by (simp add: wf_open)
next
  case (r_closeModal s ident)
  then show ?case by (simp add: wf_closeModal)
next
  case (r_close s ident)
  then show ?case by (auto simp: makeModal_close_def wf_closeModal split: option.splits)
next
  case (r_add s modalId componentId fn)
  then show ?case by (simp add: wf_add)
next
  case (r_remove s modalId componentId)
  then show ?case by (simp add: wf_remove)
next
  case (r_resume s t r s')
  then show ?case by (auto intro: wf_resume)
qed

subsection \<open>What an operation leaves alone\<close>

lemma count_list_remove1_other:
  "i \<noteq> j \<Longrightarrow> count_list (remove1 j q) i = count_list q i"
  by (induction q) auto

lemma count_list_remove1_same:
  "j \<in> set q \<Longrightarrow> Suc (count_list (remove1 j q) j) = count_list q j"
  by (induction q) auto

text \<open>A record that is closing is out of reach of another \<open>closeModal\<close>.\<close>

lemma closeModal_keeps_closing:
  assumes "modalsMap s ident = Some a" and "isClosing (heap s a)"
  shows "modalsMap (snd (closeModal j s)) ident = Some a"
    and "heap (snd (closeModal j s)) a = heap s a"
    and "next_addr (snd (closeModal j s)) = next_addr s"
    and "options (snd (closeModal j s)) = options s"
    and "count_list (modalQueue (snd (closeModal j s))) ident = count_list (modalQueue s) ident"
    and "t < next_tid s \<Longrightarrow> tasks (snd (closeModal j s)) t = tasks s t"
  using assms
  unfolding closeModal_def loop_next_def after_loop_def on_error_def Let_def
  by (auto split: option.splits list.splits behaviour.splits if_splits
      simp: count_list_remove1_other)

lemma evict_keeps_closing:
  assumes "modalsMap s ident = Some a" and "isClosing (heap s a)"
  shows "modalsMap (evict s) ident = Some a"
    and "heap (evict s) a = heap s a"
    and "next_addr (evict s) = next_addr s"
    and "options (evict s) = options s"
    and "count_list (modalQueue (evict s)) ident = count_list (modalQueue s) ident"
    and "t < next_tid s \<Longrightarrow> tasks (evict s) t = tasks s t"
  using assms closeModal_keeps_closing [OF assms]
  by (auto simp: evict_def Let_def split: option.splits)

text \<open>\<open>open\<close> on a record that is closing: the record is replaced.\<close>

lemma open_record_closing:
  assumes "modalsMap s ident = Some a" and "isClosing (heap s a)"
  shows "open_record ident p s =
           create ident p
             (s\<lparr>heap := (heap s)(a := (heap s a)\<lparr>props := props (heap s a) ++ p, isClosing := False\<rparr>),
                modalsMap := (modalsMap s)(ident := None)\<rparr>)"
  using assms by (simp add: open_record_def Let_def)

text \<open>
  With the guards all allowing and at most one entry of the identity in the Open
  Queue, a close leaves the identity in neither structure.
\<close>

lemma all_allow_absent:
  assumes "modalsMap s ident = Some a" and "\<not> isClosing (heap s a)"
    and "\<forall>p\<in>set (allFns (heap s a)). allows p"
    and "count_list (modalQueue s) ident \<le> 1"
  shows "\<exists>s'. run_close ident s = Some (True, s') \<and> modalsMap s' ident = None \<and>
           ident \<notin> set (modalQueue s')"
proof -
  from all_allow [OF assms(1-3)] obtain s' where
    s': "run_close ident s = Some (True, s')" "modalsMap s' = (modalsMap s)(ident := None)"
      "modalQueue s' = remove1 ident (modalQueue s)"
    by blast
  have "ident \<notin> set (remove1 ident (modalQueue s))"
  proof (cases "ident \<in> set (modalQueue s)")
    case True
    have "Suc (count_list (remove1 ident (modalQueue s)) ident) = count_list (modalQueue s) ident"
      using True by (rule count_list_remove1_same)
    with assms(4) have "count_list (remove1 ident (modalQueue s)) ident = 0" by linarith
    then show ?thesis
      using count_list_0_iff [of "remove1 ident (modalQueue s)" ident] by blast
  next
    case False
    then show ?thesis by (simp add: remove1_idem)
  qed
  with s' show ?thesis by auto
qed

subsection \<open>The example states\<close>

lemma reachable_opened: "reachable opened"
  unfolding opened_def by (rule r_open) (rule r_create)

lemma reachable_pending: "reachable (pending g)"
  unfolding pending_def by (rule r_closeModal) (rule r_add, rule reachable_opened)

lemma reachable_reopened: "reachable (reopened g)"
  unfolding reopened_def by (rule r_open) (rule reachable_pending)

lemma opened_eq:
  "opened =
     \<lparr>options = DEFAULT_OPTIONS,
      heap = (\<lambda>_. blank)(0 := \<lparr>props = Map.empty, visible = True, zIndex = Some 1000, isClosing = False, closePromises = []\<rparr>),
      next_addr = 1, modalsMap = [1 \<mapsto> 0], modalQueue = [1], tasks = Map.empty,
      next_tid = 0, trace = []\<rparr>"
  by (simp add: opened_def no_options_def createModalContext_def mergeOptions_def spread_def
      truthy_def plus_length_def DEFAULT_OPTIONS_def makeModal_open_def open_record_def
      evict_def create_def)

lemma pending_eq:
  "pending \<lparr>gid = n, run = Awaits st\<rparr> =
     \<lparr>options = DEFAULT_OPTIONS,
      heap = (\<lambda>_. blank)(0 := \<lparr>props = Map.empty, visible = False, zIndex = Some 1000, isClosing = True,
                                 closePromises = [(5, [\<lparr>gid = n, run = Awaits st\<rparr>])]\<rparr>),
      next_addr = 1, modalsMap = [1 \<mapsto> 0], modalQueue = [1],
      tasks = [0 \<mapsto> \<lparr>t_id = 1, t_modal = 0, awaited = st, rest = []\<rparr>],
      next_tid = 1, trace = [Invoked n]\<rparr>"
  by (simp add: pending_def opened_eq addClosePromise_def closeModal_def loop_next_def allFns_def)

lemma reopened_eq:
  "reopened \<lparr>gid = n, run = Awaits st\<rparr> =
     \<lparr>options = DEFAULT_OPTIONS,
      heap = (\<lambda>_. blank)
        (0 := \<lparr>props = [''title'' \<mapsto> 7], visible = False, zIndex = Some 1000, isClosing = False,
                closePromises = [(5, [\<lparr>gid = n, run = Awaits st\<rparr>])]\<rparr>,
         1 := \<lparr>props = [''title'' \<mapsto> 7], visible = True, zIndex = Some 1001, isClosing = False,
                closePromises = []\<rparr>),
      next_addr = 2, modalsMap = [1 \<mapsto> 1], modalQueue = [1, 1],
      tasks = [0 \<mapsto> \<lparr>t_id = 1, t_modal = 0, awaited = st, rest = []\<rparr>],
      next_tid = 1, trace = [Invoked n]\<rparr>"
  by (simp add: reopened_def pending_eq makeModal_open_def evict_def DEFAULT_OPTIONS_def
      truthy_def plus_length_def open_record_def create_def)

lemma reopened_guarded_close:
  "run_close 1 (addClosePromise 1 5 (g_true 2) (reopened \<lparr>gid = n, run = Awaits st\<rparr>)) =
     Some (True,
     \<lparr>options = DEFAULT_OPTIONS,
      heap = (\<lambda>_. blank)
        (0 := \<lparr>props = [''title'' \<mapsto> 7], visible = False, zIndex = Some 1000, isClosing = False,
                closePromises = [(5, [\<lparr>gid = n, run = Awaits st\<rparr>])]\<rparr>,
         1 := \<lparr>props = [''title'' \<mapsto> 7], visible = False, zIndex = Some 1001, isClosing = True,
                closePromises = [(5, [g_true 2])]\<rparr>),
      next_addr = 2, modalsMap = Map.empty, modalQueue = [1],
      tasks = [0 \<mapsto> \<lparr>t_id = 1, t_modal = 0, awaited = st, rest = []\<rparr>],
      next_tid = 2, trace = [Invoked n, Invoked 2]\<rparr>)"
  by (simp add: reopened_eq addClosePromise_def run_close_def closeModal_def loop_next_def
      allFns_def g_true_def drain.simps resume_def after_loop_def)

lemma reachable_aborted: "reachable aborted"
  unfolding aborted_def by (rule r_closeModal) (rule r_add, rule reachable_opened)

lemma aborted_eq:
  "aborted =
     \<lparr>options = DEFAULT_OPTIONS,
      heap = (\<lambda>_. blank)(0 := \<lparr>props = Map.empty, visible = False, zIndex = Some 1000, isClosing = False,
                                 closePromises = [(5, [g_throws 1])]\<rparr>),
      next_addr = 1, modalsMap = [1 \<mapsto> 0], modalQueue = [1], tasks = Map.empty,
      next_tid = 1, trace = [Invoked 1, ErrorReported]\<rparr>"
  by (simp add: aborted_def opened_eq addClosePromise_def closeModal_def loop_next_def allFns_def
      on_error_def g_throws_def)

lemma reachable_lone: "reachable (lone g)"
  unfolding lone_def by (rule r_add) (rule r_open, rule r_create)

lemma lone_eq:
  "lone g =
     \<lparr>options = \<lparr>baseZIndex = Some 1000, allowMultiple = Some False, debug = Some False\<rparr>,
      heap = (\<lambda>_. blank)(0 := \<lparr>props = Map.empty, visible = True, zIndex = Some 1000, isClosing = False,
                                 closePromises = [(5, [g])]\<rparr>),
      next_addr = 1, modalsMap = [1 \<mapsto> 0], modalQueue = [1], tasks = Map.empty,
      next_tid = 0, trace = []\<rparr>"
  by (simp add: lone_def single_def createModalContext_def mergeOptions_def spread_def
      truthy_def plus_length_def DEFAULT_OPTIONS_def
      makeModal_open_def open_record_def evict_def create_def addClosePromise_def)

lemma tracked_opened: "tracked {} opened"
proof -
  have "tracked {} (createModalContext no_options :: nat state)"
    by (rule t_create)
  from t_open [OF this, of 1 Map.empty] show ?thesis
    by (simp add: opened_def evict_def createModalContext_def aborted_by_def reports_def)
qed

lemma tracked_pending: "tracked {} (pending \<lparr>gid = n, run = Awaits st\<rparr>)"
proof -
  have "tracked {} (addClosePromise 1 5 \<lparr>gid = n, run = Awaits st\<rparr> opened)"
    by (rule t_add) (rule tracked_opened)
  from t_closeModal [OF this, of 1] show ?thesis
    unfolding pending_def [symmetric]
    by (simp add: aborted_by_def reports_def pending_eq)
qed

lemma tracked_aborted: "tracked {0} aborted"
proof -
  have "tracked {} (addClosePromise 1 5 (g_throws 1) opened)"
    by (rule t_add) (rule tracked_opened)
  from t_closeModal [OF this, of 1] show ?thesis
    unfolding aborted_def [symmetric]
    by (simp add: aborted_by_def reports_def aborted_eq addClosePromise_def opened_eq)
qed

lemma evicting_eq:
  "evicting =
     \<lparr>options = \<lparr>baseZIndex = Some 1000, allowMultiple = Some False, debug = Some False\<rparr>,
      heap = (\<lambda>_. blank)
        (0 := \<lparr>props = Map.empty, visible = False, zIndex = Some 1000, isClosing = True,
                closePromises = [(6, [g_false 2])]\<rparr>,
         1 := \<lparr>props = Map.empty, visible = True, zIndex = Some 1001, isClosing = False,
                closePromises = []\<rparr>),
      next_addr = 2, modalsMap = [2 \<mapsto> 0, 1 \<mapsto> 1], modalQueue = [2, 1],
      tasks = [0 \<mapsto> \<lparr>t_id = 2, t_modal = 0, awaited = Fulfils (Some False), rest = []\<rparr>],
      next_tid = 1, trace = [Invoked 2]\<rparr>"
  by (simp add: evicting_def single_def createModalContext_def mergeOptions_def spread_def
      truthy_def plus_length_def DEFAULT_OPTIONS_def makeModal_open_def open_record_def
      evict_def create_def addClosePromise_def closeModal_def loop_next_def allFns_def
      g_false_def)

lemma resume_evicting:
  "resume 0 evicting = Some (Resolved False,
     \<lparr>options = \<lparr>baseZIndex = Some 1000, allowMultiple = Some False, debug = Some False\<rparr>,
      heap = (\<lambda>_. blank)
        (0 := \<lparr>props = Map.empty, visible = True, zIndex = Some 1000, isClosing = False,
                closePromises = [(6, [g_false 2])]\<rparr>,
         1 := \<lparr>props = Map.empty, visible = True, zIndex = Some 1001, isClosing = False,
                closePromises = []\<rparr>),
      next_addr = 2, modalsMap = [2 \<mapsto> 0, 1 \<mapsto> 1], modalQueue = [2, 1],
      tasks = Map.empty, next_tid = 1, trace = [Invoked 2]\<rparr>)"
  unfolding evicting_eq by (auto simp add: resume_def on_deny_def fun_eq_iff)

lemma kept_eq:
  "kept =
     \<lparr>options = \<lparr>baseZIndex = Some 1000, allowMultiple = Some False, debug = Some False\<rparr>,
      heap = (\<lambda>_. blank)
        (0 := \<lparr>props = Map.empty, visible = True, zIndex = Some 1000, isClosing = False,
                closePromises = [(6, [g_false 2])]\<rparr>,
         1 := \<lparr>props = Map.empty, visible = True, zIndex = Some 1001, isClosing = False,
                closePromises = []\<rparr>),
      next_addr = 2, modalsMap = [2 \<mapsto> 0, 1 \<mapsto> 1], modalQueue = [2, 1],
      tasks = Map.empty, next_tid = 1, trace = [Invoked 2]\<rparr>"
  unfolding kept_def resume_evicting by simp

lemma reclosing_eq:
  "reclosing =
     \<lparr>options = \<lparr>baseZIndex = Some 1000, allowMultiple = Some False, debug = Some False\<rparr>,
      heap = (\<lambda>_. blank)
        (0 := \<lparr>props = Map.empty, visible = True, zIndex = Some 1000, isClosing = False,
                closePromises = [(6, [g_false 2])]\<rparr>,
         1 := \<lparr>props = Map.empty, visible = False, zIndex = Some 1001, isClosing = True,
                closePromises = [(5, [g_ok 1])]\<rparr>),
      next_addr = 2, modalsMap = [2 \<mapsto> 0, 1 \<mapsto> 1], modalQueue = [2, 1],
      tasks = [1 \<mapsto> \<lparr>t_id = 1, t_modal = 1, awaited = Fulfils None, rest = []\<rparr>],
      next_tid = 2, trace = [Invoked 2, Invoked 1]\<rparr>"
  unfolding reclosing_def kept_eq
  by (simp add: addClosePromise_def closeModal_def loop_next_def allFns_def g_ok_def)

lemma reopen_reclosing:
  "makeModal_open 1 Map.empty reclosing =
     \<lparr>options = \<lparr>baseZIndex = Some 1000, allowMultiple = Some False, debug = Some False\<rparr>,
      heap = (\<lambda>_. blank)
        (0 := \<lparr>props = Map.empty, visible = True, zIndex = Some 1000, isClosing = False,
                closePromises = [(6, [g_false 2])]\<rparr>,
         1 := \<lparr>props = Map.empty, visible = False, zIndex = Some 1001, isClosing = False,
                closePromises = [(5, [g_ok 1])]\<rparr>,
         2 := \<lparr>props = Map.empty, visible = True, zIndex = Some 1002, isClosing = False,
                closePromises = []\<rparr>),
      next_addr = 3, modalsMap = [2 \<mapsto> 0, 1 \<mapsto> 2], modalQueue = [2, 1, 1],
      tasks = [1 \<mapsto> \<lparr>t_id = 1, t_modal = 1, awaited = Fulfils None, rest = []\<rparr>],
      next_tid = 2, trace = [Invoked 2, Invoked 1]\<rparr>"
  unfolding reclosing_eq
  by (simp add: makeModal_open_def evict_def truthy_def plus_length_def closeModal_def
      open_record_def create_def numeral_2_eq_2)

lemma close_reopened:
  "closeModal 1 (makeModal_open 1 Map.empty reclosing) = (Resolved True,
     \<lparr>options = \<lparr>baseZIndex = Some 1000, allowMultiple = Some False, debug = Some False\<rparr>,
      heap = (\<lambda>_. blank)
        (0 := \<lparr>props = Map.empty, visible = True, zIndex = Some 1000, isClosing = False,
                closePromises = [(6, [g_false 2])]\<rparr>,
         1 := \<lparr>props = Map.empty, visible = False, zIndex = Some 1001, isClosing = False,
                closePromises = [(5, [g_ok 1])]\<rparr>,
         2 := \<lparr>props = Map.empty, visible = False, zIndex = Some 1002, isClosing = True,
                closePromises = []\<rparr>),
      next_addr = 3, modalsMap = [2 \<mapsto> 0], modalQueue = [2, 1],
      tasks = [1 \<mapsto> \<lparr>t_id = 1, t_modal = 1, awaited = Fulfils None, rest = []\<rparr>],
      next_tid = 3, trace = [Invoked 2, Invoked 1]\<rparr>)"
  unfolding reopen_reclosing
  by (auto simp add: closeModal_def loop_next_def after_loop_def allFns_def fun_eq_iff
      numeral_2_eq_2)

lemma resume_closed:
  "resume 1 (snd (closeModal 1 (makeModal_open 1 Map.empty reclosing))) = Some (Resolved False,
     \<lparr>options = \<lparr>baseZIndex = Some 1000, allowMultiple = Some False, debug = Some False\<rparr>,
      heap = (\<lambda>_. blank)
        (0 := \<lparr>props = Map.empty, visible = True, zIndex = Some 1000, isClosing = False,
                closePromises = [(6, [g_false 2])]\<rparr>,
         1 := \<lparr>props = Map.empty, visible = False, zIndex = Some 1001, isClosing = False,
                closePromises = [(5, [g_ok 1])]\<rparr>,
         2 := \<lparr>props = Map.empty, visible = False, zIndex = Some 1002, isClosing = True,
                closePromises = []\<rparr>),
      next_addr = 3, modalsMap = [2 \<mapsto> 0], modalQueue = [2, 1],
      tasks = Map.empty, next_tid = 3, trace = [Invoked 2, Invoked 1]\<rparr>)"
  unfolding close_reopened
  by (simp add: resume_def loop_next_def after_loop_def)

lemma stale_eq:
  "stale =
     \<lparr>options = \<lparr>baseZIndex = Some 1000, allowMultiple = Some False, debug = Some False\<rparr>,
      heap = (\<lambda>_. blank)
        (0 := \<lparr>props = Map.empty, visible = True, zIndex = Some 1000, isClosing = False,
                closePromises = [(6, [g_true 3])]\<rparr>,
         1 := \<lparr>props = Map.empty, visible = False, zIndex = Some 1001, isClosing = False,
                closePromises = [(5, [g_ok 1])]\<rparr>,
         2 := \<lparr>props = Map.empty, visible = False, zIndex = Some 1002, isClosing = True,
                closePromises = []\<rparr>),
      next_addr = 3, modalsMap = [2 \<mapsto> 0], modalQueue = [2, 1],
      tasks = Map.empty, next_tid = 3, trace = [Invoked 2, Invoked 1]\<rparr>"
  unfolding stale_def closed_again_def resume_closed
  by (auto simp add: addClosePromise_def removeComponentPromises_def map_delete_def fun_eq_iff)

lemma open_stale:
  "makeModal_open 3 Map.empty stale =
     \<lparr>options = \<lparr>baseZIndex = Some 1000, allowMultiple = Some False, debug = Some False\<rparr>,
      heap = (\<lambda>_. blank)
        (0 := \<lparr>props = Map.empty, visible = True, zIndex = Some 1000, isClosing = False,
                closePromises = [(6, [g_true 3])]\<rparr>,
         1 := \<lparr>props = Map.empty, visible = False, zIndex = Some 1001, isClosing = False,
                closePromises = [(5, [g_ok 1])]\<rparr>,
         2 := \<lparr>props = Map.empty, visible = False, zIndex = Some 1002, isClosing = True,
                closePromises = []\<rparr>,
         3 := \<lparr>props = Map.empty, visible = True, zIndex = Some 1002, isClosing = False,
                closePromises = []\<rparr>),
      next_addr = 4, modalsMap = [2 \<mapsto> 0, 3 \<mapsto> 3], modalQueue = [2, 1, 3],
      tasks = Map.empty, next_tid = 3, trace = [Invoked 2, Invoked 1]\<rparr>"
  unfolding stale_eq
  by (simp add: makeModal_open_def evict_def truthy_def plus_length_def open_record_def
      create_def numeral_3_eq_3)

lemma reachable_stale: "reachable stale"
proof -
  have "reachable evicting"
    unfolding evicting_def
    by (rule r_open, rule r_add, rule r_open, rule r_create)
  from r_resume [OF this resume_evicting [folded evicting_eq]]
  have "reachable kept"
    unfolding kept_eq .
  then have "reachable reclosing"
    unfolding reclosing_def by (intro r_closeModal r_add)
  then have "reachable (snd (closeModal 1 (makeModal_open 1 Map.empty reclosing)))"
    by (intro r_closeModal r_open)
  from r_resume [OF this resume_closed]
  have "reachable closed_again"
    unfolding closed_again_def resume_closed by simp
  then show ?thesis
    unfolding stale_def by (intro r_add r_remove)
qed

subsection \<open>Records in the registry are visible, closing, or aborted by a guard error\<close>

lemma quiet_closeModal: "quiet (snd (closeModal ident s)) \<Longrightarrow> quiet s"
  unfolding quiet_def closeModal_def loop_next_def after_loop_def on_error_def Let_def
  by (auto split: option.splits list.splits behaviour.splits if_splits)

lemma quiet_resume: "resume t s = Some (r, s') \<Longrightarrow> quiet s' \<Longrightarrow> quiet s"
  unfolding quiet_def resume_def loop_next_def after_loop_def on_error_def on_deny_def Let_def
  by (auto split: option.splits list.splits behaviour.splits settlement.splits if_splits)

lemma quiet_add [simp]: "quiet (addClosePromise m c fn s) = quiet s"
  unfolding quiet_def addClosePromise_def Let_def
  by (auto split: option.splits)

lemma quiet_remove [simp]: "quiet (removeComponentPromises m c s) = quiet s"
  unfolding quiet_def removeComponentPromises_def
  by (auto split: option.splits)

lemma quiet_evict: "quiet (evict s) \<Longrightarrow> quiet s"
  by (auto simp: evict_def Let_def split: option.splits if_splits dest: quiet_closeModal)

lemma quiet_open_record [simp]: "quiet (open_record ident p s) = quiet s"
  unfolding quiet_def open_record_def create_def Let_def
  by (auto split: option.splits)

lemma tracked_reachable: "tracked E s \<Longrightarrow> reachable s"
  by (induction rule: tracked.induct) (auto intro: reachable.intros(1-6) r_resume)

lemma reachable_tracked: "reachable s \<Longrightarrow> \<exists>E. tracked E s"
  by (induction rule: reachable.induct) (blast intro: tracked.intros)+

lemma aborted_by_same [simp]: "aborted_by a s s = {}"
  by (simp add: aborted_by_def reports_def)

lemma covered_closeModal:
  "covered E s \<Longrightarrow>
   covered (E \<union> aborted_by (modalsMap s ident) s (snd (closeModal ident s)))
     (snd (closeModal ident s))"
  unfolding covered_def aborted_by_def reports_def closeModal_def loop_next_def after_loop_def
    on_error_def Let_def
  by (auto split: option.splits list.splits behaviour.splits if_splits; blast)

lemma covered_resume:
  "covered E s \<Longrightarrow> resume t s = Some (r, s') \<Longrightarrow>
   covered (E \<union> aborted_by (map_option t_modal (tasks s t)) s s') s'"
  unfolding covered_def aborted_by_def reports_def resume_def loop_next_def after_loop_def
    on_error_def on_deny_def Let_def
  by (auto split: option.splits list.splits behaviour.splits settlement.splits if_splits; blast)

lemma covered_add: "covered E s \<Longrightarrow> covered E (addClosePromise m c fn s)"
  unfolding covered_def addClosePromise_def Let_def
  by (auto split: option.splits; blast)

lemma covered_remove: "covered E s \<Longrightarrow> covered E (removeComponentPromises m c s)"
  unfolding covered_def removeComponentPromises_def
  by (auto split: option.splits; blast)

lemma covered_evict:
  "covered E s \<Longrightarrow>
   covered (E \<union> aborted_by (modalsMap s (last (modalQueue s))) s (evict s)) (evict s)"
  using covered_closeModal [of E s "last (modalQueue s)"]
  by (auto simp: evict_def Let_def split: option.splits)

lemma covered_open_record:
  "wf_state s \<Longrightarrow> covered E s \<Longrightarrow> covered E (open_record ident p s)"
  unfolding covered_def open_record_def create_def wf_state_def Let_def
  by (auto split: option.splits if_splits; blast)

lemma tracked_covered: "tracked E s \<Longrightarrow> covered E s"
proof (induction rule: tracked.induct)
  case (t_create opts)
  show ?case by (simp add: covered_def createModalContext_def)
next
  case (t_open E s ident p)
  have "wf_state (evict s)"
    using t_open.hyps by (intro wf_evict reachable_wf tracked_reachable)
  with t_open.IH show ?case
    unfolding makeModal_open_def by (intro covered_open_record covered_evict)
next
  case (t_closeModal E s ident)
  then show ?case by (intro covered_closeModal)
next
  case (t_close E s ident)
  then show ?case
    using covered_closeModal [of E s ident]
    by (auto simp: makeModal_close_def split: option.splits)
next
  case (t_add E s modalId componentId fn)
  then show ?case by (intro covered_add)
next
  case (t_remove E s modalId componentId)
  then show ?case by (intro covered_remove)
next
  case (t_resume E s t r s')
  then show ?case by (intro covered_resume)
qed

text \<open>As long as no guard error has been reported, no record has been aborted.\<close>

lemma aborted_by_quiet: "quiet s' \<Longrightarrow> aborted_by a s s' = {}"
proof -
  assume q: "quiet s'"
  have "\<not> reports s s'"
  proof
    assume r: "reports s s'"
    then have "trace s' \<noteq> []" by (auto simp: reports_def)
    then have "last (trace s') \<in> set (trace s')" by (rule last_in_set)
    with r q show False by (simp add: reports_def quiet_def)
  qed
  then show ?thesis by (simp add: aborted_by_def)
qed

lemma tracked_quiet: "tracked E s \<Longrightarrow> quiet s \<Longrightarrow> E = {}"
proof (induction rule: tracked.induct)
  case (t_create opts)
  show ?case by simp
next
  case (t_open E s ident p)
  then have q: "quiet (evict s)" by (simp add: makeModal_open_def)
  with t_open.IH show ?case by (simp add: aborted_by_quiet quiet_evict)
next
  case (t_closeModal E s ident)
  then show ?case by (simp add: aborted_by_quiet quiet_closeModal)
next
  case (t_close E s ident)
  then show ?case
    by (auto simp: makeModal_close_def aborted_by_quiet split: option.splits
        dest: quiet_closeModal)
next
  case (t_add E s modalId componentId fn)
  then show ?case by simp
next
  case (t_remove E s modalId componentId)
  then show ?case by simp
next
  case (t_resume E s t r s')
  then show ?case by (simp add: aborted_by_quiet quiet_resume)
qed

subsection \<open>A negotiation whose record is no longer closing\<close>

text \<open>
  The loop never sets \<open>isClosing\<close>; when the flag of its record has been cleared
  (by \<open>open\<close>), the rest of the negotiation cannot reach the deletion after the
  loop, and everything it writes, it writes to its own record.
\<close>

lemma negotiate_cancelled:
  "\<not> isClosing (heap s a) \<Longrightarrow> negotiate ident a fns s = (b, r) \<Longrightarrow>
   \<not> b \<and> modalsMap r = modalsMap s \<and> modalQueue r = modalQueue s \<and>
   (\<forall>x. x \<noteq> a \<longrightarrow> heap r x = heap s x)"
proof (induction fns arbitrary: s)
  case Nil
  then show ?case by simp
next
  case (Cons g gs)
  let ?s1 = "s\<lparr>trace := trace s @ [Invoked (gid g)]\<rparr>"
  have c: "\<not> isClosing (heap ?s1 a)" using Cons.prems(1) by simp
  show ?case
  proof (cases "\<exists>v. run g = Awaits (Fulfils v) \<and> v \<noteq> Some False")
    case True
    with Cons.prems(2) have "negotiate ident a gs ?s1 = (b, r)"
      by (auto simp: Let_def)
    from Cons.IH [OF c this] show ?thesis by simp
  next
    case False
    with Cons.prems(2) show ?thesis
      by (auto simp: Let_def on_error_def on_deny_def
          split: behaviour.splits settlement.splits if_splits)
  qed
qed

lemma resumed_cancelled:
  assumes "\<not> isClosing (heap s (t_modal k))" and "resumed k s = (b, r)"
  shows "\<not> b \<and> modalsMap r = modalsMap s \<and> modalQueue r = modalQueue s \<and>
         (\<forall>x. x \<noteq> t_modal k \<longrightarrow> heap r x = heap s x)"
proof (cases "\<exists>v. awaited k = Fulfils v \<and> v \<noteq> Some False")
  case True
  with assms(2) have "negotiate (t_id k) (t_modal k) (rest k) s = (b, r)"
    by (auto simp: resumed_def)
  from negotiate_cancelled [OF assms(1) this] show ?thesis .
next
  case False
  with assms(2) show ?thesis
    by (auto simp: resumed_def on_error_def on_deny_def split: settlement.splits if_splits)
qed

lemma drain_cancelled:
  assumes "tasks s t = Some k" and "\<not> isClosing (heap s (t_modal k))"
  shows "\<exists>s'. drain t s = Some (False, s') \<and> modalsMap s' = modalsMap s \<and>
           modalQueue s' = modalQueue s \<and> (\<forall>x. x \<noteq> t_modal k \<longrightarrow> heap s' x = heap s x)"
proof -
  let ?s0 = "s\<lparr>tasks := (tasks s)(t := None)\<rparr>"
  obtain b r where br: "resumed k ?s0 = (b, r)" by (cases "resumed k ?s0")
  have "\<not> isClosing (heap ?s0 (t_modal k))" using assms(2) by simp
  from resumed_cancelled [OF this br] drain_resumed [OF assms(1)] br
  show ?thesis by simp
qed

subsection \<open>Steps, and records that have been replaced\<close>

lemma reachable_step: "reachable s \<Longrightarrow> step s s' \<Longrightarrow> reachable s'"
  by (erule step.cases) (auto intro: reachable.intros(2-7))

lemma reachable_steps: "rtranclp step s s' \<Longrightarrow> reachable s \<Longrightarrow> reachable s'"
  by (induction rule: rtranclp_induct) (auto intro: reachable_step)

lemma replaced_closeModal: "replaced a s \<Longrightarrow> replaced a (snd (closeModal ident s))"
  unfolding replaced_def closeModal_def loop_next_def after_loop_def on_error_def Let_def
  by (auto split: option.splits list.splits behaviour.splits if_splits)

lemma replaced_resume: "replaced a s \<Longrightarrow> resume t s = Some (r, s') \<Longrightarrow> replaced a s'"
  unfolding replaced_def resume_def loop_next_def after_loop_def on_error_def on_deny_def Let_def
  by (auto split: option.splits list.splits behaviour.splits settlement.splits if_splits)

lemma replaced_add: "replaced a s \<Longrightarrow> replaced a (addClosePromise m c fn s)"
  unfolding replaced_def addClosePromise_def Let_def
  by (auto split: option.splits)

lemma replaced_remove: "replaced a s \<Longrightarrow> replaced a (removeComponentPromises m c s)"
  unfolding replaced_def removeComponentPromises_def
  by (auto split: option.splits)

lemma replaced_evict: "replaced a s \<Longrightarrow> replaced a (evict s)"
  by (auto simp: evict_def Let_def replaced_closeModal split: option.splits)

lemma replaced_open_record: "replaced a s \<Longrightarrow> replaced a (open_record ident p s)"
  unfolding replaced_def open_record_def create_def Let_def
  by (auto split: option.splits if_splits)

lemma replaced_step: "step s s' \<Longrightarrow> replaced a s \<Longrightarrow> replaced a s'"
  by (erule step.cases)
     (auto simp: makeModal_open_def makeModal_close_def split: option.splits
        intro: replaced_closeModal replaced_resume replaced_add replaced_remove
          replaced_evict replaced_open_record)

lemma replaced_steps: "rtranclp step s s' \<Longrightarrow> replaced a s \<Longrightarrow> replaced a s'"
  by (induction rule: rtranclp_induct) (auto intro: replaced_step)

text \<open>A resumption of a negotiation on such a record writes to that record only.\<close>

lemma resume_cancelled:
  assumes "tasks s t = Some k" and "\<not> isClosing (heap s (t_modal k))"
    and "resume t s = Some (r, s')"
  shows "r \<noteq> Resolved True \<and> modalsMap s' = modalsMap s \<and> modalQueue s' = modalQueue s \<and>
         (\<forall>x. x \<noteq> t_modal k \<longrightarrow> heap s' x = heap s x)"
  using assms
  unfolding resume_def loop_next_def after_loop_def on_error_def on_deny_def Let_def
  by (auto split: option.splits list.splits behaviour.splits settlement.splits if_splits)

subsection \<open>A close that is suspended, and resumed in a later state\<close>

lemma closeModal_Pending:
  assumes "modalsMap s ident = Some a" and "\<not> isClosing (heap s a)"
    and "allFns (heap s a) = g # gs" and "run g = Awaits st"
  shows "closeModal ident s =
           (Pending (next_tid s),
            (closing a s)\<lparr>trace := trace s @ [Invoked (gid g)],
              tasks := (tasks s)(next_tid s \<mapsto>
                \<lparr>t_id = ident, t_modal = a, awaited = st, rest = gs\<rparr>)\<rparr>)"
  using assms by (simp add: closeModal_def loop_next_def closing_def Let_def)

lemma closeModal_no_guard:
  assumes "modalsMap s ident = Some a" and "\<not> isClosing (heap s a)"
    and "allFns (heap s a) = []"
  shows "closeModal ident s =
           (Resolved True,
            (closing a s)\<lparr>modalsMap := (modalsMap s)(ident := None),
              modalQueue := remove1 ident (modalQueue s)\<rparr>)"
  using assms by (simp add: closeModal_def loop_next_def after_loop_def closing_def Let_def)

lemma resumed_as_negotiate:
  assumes "run g = Awaits st" and "trace s = tr @ [Invoked (gid g)]"
  shows "resumed \<lparr>t_id = ident, t_modal = a, awaited = st, rest = gs\<rparr> s =
           negotiate ident a (g # gs) (s\<lparr>trace := tr\<rparr>)"
proof -
  have "s\<lparr>trace := tr\<rparr>\<lparr>trace := trace (s\<lparr>trace := tr\<rparr>) @ [Invoked (gid g)]\<rparr> = s"
    using assms(2) by simp
  then show ?thesis
    using assms(1) by (cases st) (simp_all add: resumed_def Let_def)
qed

lemma closeModal_other:
  assumes "modalsMap s B = None"
  shows "modalsMap (snd (closeModal A s)) B = None"
    and "next_addr (snd (closeModal A s)) = next_addr s"
  using assms
  unfolding closeModal_def loop_next_def after_loop_def on_error_def Let_def
  by (auto split: option.splits list.splits behaviour.splits if_splits)

subsection \<open>Eviction when the last entry of the Open Queue has a record\<close>

text \<open>
  Let \<open>allowMultiple\<close> be false or \<open>undefined\<close>, let \<open>A\<close> be the last entry of the Open
  Queue, with a record that is not closing, and let \<open>open\<close> be called for a modal \<open>B\<close>
  that has no record. Then \<open>open\<close> calls \<open>closeModal(A)\<close> and goes on with its state,
  and \<open>B\<close> gets a visible record whatever \<open>A\<close>'s guards do. If one of \<open>A\<close>'s guards
  denies (the ones before it allowing), the negotiation resolves to \<open>false\<close> and both
  \<open>A\<close> and \<open>B\<close> have visible records, \<open>B\<close> last in the Open Queue. If all of
  \<open>A\<close>'s guards allow, \<open>A\<close>'s record is deleted (within \<open>open\<close> when \<open>A\<close> has no
  guard, else when the negotiation resolves to \<open>true\<close>), \<open>A\<close>'s entry is removed
  from the Open Queue and \<open>B\<close> is appended.
\<close>

lemma eviction_of_last_entry:
  assumes "reachable s" and "\<not> truthy (allowMultiple (options s))"
    and "modalQueue s \<noteq> []" and "last (modalQueue s) = A"
    and "modalsMap s A = Some a" and "\<not> isClosing (heap s a)"
    and "modalsMap s B = None"
  shows "makeModal_open B p s = open_record B p (snd (closeModal A s)) \<and>
         modalsMap (makeModal_open B p s) B = Some (next_addr s) \<and>
         visible (heap (makeModal_open B p s) (next_addr s)) \<and>
         (\<forall>pre g post.
            allFns (heap s a) = pre @ g # post \<longrightarrow> (\<forall>x\<in>set pre. allows x) \<longrightarrow> denies g \<longrightarrow>
            (\<exists>s2. drain (next_tid s) (makeModal_open B p s) = Some (False, s2) \<and>
               trace s2 = trace s @ map (Invoked \<circ> gid) (pre @ [g]) \<and>
               modalsMap s2 A = Some a \<and> visible (heap s2 a) \<and> \<not> isClosing (heap s2 a) \<and>
               modalsMap s2 B = Some (next_addr s) \<and> visible (heap s2 (next_addr s)) \<and>
               modalQueue s2 = modalQueue s @ [B])) \<and>
         ((\<forall>x\<in>set (allFns (heap s a)). allows x) \<longrightarrow>
            (\<exists>s2. (if allFns (heap s a) = [] then s2 = makeModal_open B p s
                   else drain (next_tid s) (makeModal_open B p s) = Some (True, s2)) \<and>
               trace s2 = trace s @ map (Invoked \<circ> gid) (allFns (heap s a)) \<and>
               modalsMap s2 A = None \<and> modalsMap s2 B = Some (next_addr s) \<and>
               visible (heap s2 (next_addr s)) \<and>
               modalQueue s2 = remove1 A (modalQueue s) @ [B]))"
proof -
  let ?t = "next_tid s" and ?b = "next_addr s"
  let ?s1 = "makeModal_open B p s"
  from assms(1) have wf: "wf_state s" by (rule reachable_wf)
  with assms(5) have a: "a \<noteq> ?b" and inq: "A \<in> set (modalQueue s)"
    by (auto simp: wf_state_def)
  have ne: "A \<noteq> B" using assms(5,7) by auto
  have ev: "evict s = snd (closeModal A s)"
    using assms(2-5) by (simp add: evict_def)
  have open_eq: "?s1 = open_record B p (snd (closeModal A s))"
    by (simp add: makeModal_open_def ev)
  note co = closeModal_other [OF assms(7), of A]
  have s1: "?s1 = create B p (snd (closeModal A s))"
    by (simp add: open_eq open_record_def co)
  have B1: "modalsMap ?s1 B = Some ?b" "visible (heap ?s1 ?b)"
    by (simp_all add: s1 co)
  \<comment> \<open>the negotiation, when the first guard returns\<close>
  have later: "drain ?t ?s1 =
        Some (negotiate A a (allFns (heap s a))
                ((create B p (closing a s))\<lparr>tasks := (tasks s)(?t := None)\<rparr>))"
    if fns: "allFns (heap s a) = g0 # gs0" and st: "run g0 = Awaits st" for g0 gs0 st
  proof -
    let ?k = "\<lparr>t_id = A, t_modal = a, awaited = st, rest = gs0\<rparr>"
    let ?e = "(closing a s)\<lparr>trace := trace s @ [Invoked (gid g0)],
                tasks := (tasks s)(?t \<mapsto> ?k)\<rparr>"
    have cm: "closeModal A s = (Pending ?t, ?e)"
      using assms(5,6) fns st by (rule closeModal_Pending)
    have s1': "?s1 = create B p ?e" by (simp add: s1 cm)
    have "tasks ?s1 ?t = Some ?k" by (simp add: s1')
    from drain_resumed [OF this]
    have "drain ?t ?s1 = Some (resumed ?k (?s1\<lparr>tasks := (tasks ?s1)(?t := None)\<rparr>))" .
    moreover have "trace (?s1\<lparr>tasks := (tasks ?s1)(?t := None)\<rparr>) = trace s @ [Invoked (gid g0)]"
      by (simp add: s1' closing_def)
    from resumed_as_negotiate [OF st this]
    have "resumed ?k (?s1\<lparr>tasks := (tasks ?s1)(?t := None)\<rparr>) =
          negotiate A a (g0 # gs0) (?s1\<lparr>tasks := (tasks ?s1)(?t := None), trace := trace s\<rparr>)"
      by simp
    moreover have "?s1\<lparr>tasks := (tasks ?s1)(?t := None), trace := trace s\<rparr> =
          (create B p (closing a s))\<lparr>tasks := (tasks s)(?t := None)\<rparr>"
      by (simp add: s1' create_def closing_def Let_def)
    ultimately show ?thesis by (simp add: fns)
  qed
  let ?Y = "(create B p (closing a s))\<lparr>tasks := (tasks s)(?t := None)\<rparr>"
  have deny: "\<exists>s2. drain ?t ?s1 = Some (False, s2) \<and>
               trace s2 = trace s @ map (Invoked \<circ> gid) (pre @ [g]) \<and>
               modalsMap s2 A = Some a \<and> visible (heap s2 a) \<and> \<not> isClosing (heap s2 a) \<and>
               modalsMap s2 B = Some ?b \<and> visible (heap s2 ?b) \<and>
               modalQueue s2 = modalQueue s @ [B]"
    if fns: "allFns (heap s a) = pre @ g # post" and pre: "\<forall>x\<in>set pre. allows x"
      and g: "denies g" for pre g post
  proof -
    obtain g0 gs0 where c: "allFns (heap s a) = g0 # gs0"
      using fns by (cases pre) auto
    then have "g0 \<in> set pre \<or> g0 = g" using fns by (cases pre) auto
    with pre g obtain st where "run g0 = Awaits st"
      by (auto simp: allows_def denies_def)
    from later [OF c this]
    have "drain ?t ?s1 = Some (negotiate A a (pre @ g # post) ?Y)"
      by (simp add: fns)
    also have "negotiate A a (pre @ g # post) ?Y =
        (False, on_deny a (?Y\<lparr>trace := trace ?Y @ map (Invoked \<circ> gid) pre @ [Invoked (gid g)]\<rparr>))"
      using pre g by (simp add: negotiate_allows negotiate_denies del: negotiate.simps)
    finally show ?thesis
      using a ne assms(5) by (simp add: on_deny_def closing_def)
  qed
  have allow: "\<exists>s2. (if allFns (heap s a) = [] then s2 = ?s1
                   else drain ?t ?s1 = Some (True, s2)) \<and>
               trace s2 = trace s @ map (Invoked \<circ> gid) (allFns (heap s a)) \<and>
               modalsMap s2 A = None \<and> modalsMap s2 B = Some ?b \<and>
               visible (heap s2 ?b) \<and>
               modalQueue s2 = remove1 A (modalQueue s) @ [B]"
    if al: "\<forall>x\<in>set (allFns (heap s a)). allows x"
  proof (cases "allFns (heap s a)")
    case Nil
    from closeModal_no_guard [OF assms(5,6) Nil]
    have "?s1 = create B p ((closing a s)\<lparr>modalsMap := (modalsMap s)(A := None),
              modalQueue := remove1 A (modalQueue s)\<rparr>)"
      by (simp add: s1)
    then show ?thesis
      using ne Nil by (simp add: closing_def)
  next
    case (Cons g0 gs0)
    with al obtain st where "run g0 = Awaits st"
      by (auto simp: allows_def)
    from later [OF Cons this]
    have "drain ?t ?s1 = Some (negotiate A a (allFns (heap s a) @ []) ?Y)"
      by simp
    also have "negotiate A a (allFns (heap s a) @ []) ?Y =
        negotiate A a [] (?Y\<lparr>trace := trace ?Y @ map (Invoked \<circ> gid) (allFns (heap s a))\<rparr>)"
      using al by (rule negotiate_allows)
    finally show ?thesis
      using a ne inq Cons by (simp add: closing_def remove1_append)
  qed
  from open_eq B1 deny allow show ?thesis by blast
qed

lemma eviction_of_last_entry_example:
  "reachable (lone (g_false 1)) \<and> \<not> truthy (allowMultiple (options (lone (g_false 1)))) \<and>
   modalQueue (lone (g_false 1)) \<noteq> [] \<and> last (modalQueue (lone (g_false 1))) = 1 \<and>
   modalsMap (lone (g_false 1)) 1 = Some 0 \<and> \<not> isClosing (heap (lone (g_false 1)) 0) \<and>
   modalsMap (lone (g_false 1)) 2 = None \<and>
   allFns (heap (lone (g_false 1)) 0) = [] @ g_false 1 # [] \<and> denies (g_false 1) \<and>
   (\<exists>s2. drain 0 (makeModal_open 2 Map.empty (lone (g_false 1))) = Some (False, s2) \<and>
      trace s2 = [Invoked 1] \<and>
      modalsMap s2 1 = Some 0 \<and> visible (heap s2 0) \<and> \<not> isClosing (heap s2 0) \<and>
      modalsMap s2 2 = Some 1 \<and> visible (heap s2 1) \<and> modalQueue s2 = [1, 2]) \<and>
   reachable (lone (g_ok 1)) \<and> allFns (heap (lone (g_ok 1)) 0) = [g_ok 1] \<and> allows (g_ok 1) \<and>
   (\<exists>s2. drain 0 (makeModal_open 2 Map.empty (lone (g_ok 1))) = Some (True, s2) \<and>
      trace s2 = [Invoked 1] \<and>
      modalsMap s2 1 = None \<and> modalsMap s2 2 = Some 1 \<and> visible (heap s2 1) \<and>
      modalQueue s2 = [2])"
proof -
  have 1: "reachable (lone g)" for g by (rule reachable_lone)
  have 2: "\<not> truthy (allowMultiple (options (lone g)))" and 3: "modalQueue (lone g) \<noteq> []"
    and 4: "last (modalQueue (lone g)) = 1" and 5: "modalsMap (lone g) 1 = Some 0"
    and 6: "\<not> isClosing (heap (lone g) 0)" and 7: "modalsMap (lone g) 2 = None"
    and 8: "allFns (heap (lone g) 0) = [g]" and 9: "next_tid (lone g) = 0"
    and 10: "next_addr (lone g) = 1" and 11: "trace (lone g) = []"
    and 12: "modalQueue (lone g) = [1]" for g
    by (simp_all add: lone_eq allFns_def truthy_def)
  have d: "denies (g_false 1)" by (simp add: denies_def g_false_def)
  have al: "allows (g_ok 1)" by (simp add: allows_def g_ok_def)
  have fns: "allFns (heap (lone (g_false 1)) 0) = [] @ g_false 1 # []" by (simp add: 8)
  have e: "\<forall>x\<in>set []. allows x" by simp
  have al': "\<forall>x\<in>set (allFns (heap (lone (g_ok 1)) 0)). allows x" using al by (simp add: 8)
  from eviction_of_last_entry [OF 1 [of "g_false 1"] 2 3 4 5 6 7, where p = Map.empty] fns e d
  have D: "\<exists>s2. drain (next_tid (lone (g_false 1))) (makeModal_open 2 Map.empty (lone (g_false 1)))
                 = Some (False, s2) \<and>
      trace s2 = trace (lone (g_false 1)) @ map (Invoked \<circ> gid) ([] @ [g_false 1]) \<and>
      modalsMap s2 1 = Some 0 \<and> visible (heap s2 0) \<and> \<not> isClosing (heap s2 0) \<and>
      modalsMap s2 2 = Some (next_addr (lone (g_false 1))) \<and>
      visible (heap s2 (next_addr (lone (g_false 1)))) \<and>
      modalQueue s2 = modalQueue (lone (g_false 1)) @ [2]"
    by blast
  from eviction_of_last_entry [OF 1 [of "g_ok 1"] 2 3 4 5 6 7, where p = Map.empty] al'
  have A: "\<exists>s2. (if allFns (heap (lone (g_ok 1)) 0) = [] then s2 = makeModal_open 2 Map.empty (lone (g_ok 1))
                   else drain (next_tid (lone (g_ok 1))) (makeModal_open 2 Map.empty (lone (g_ok 1)))
                      = Some (True, s2)) \<and>
      trace s2 = trace (lone (g_ok 1)) @ map (Invoked \<circ> gid) (allFns (heap (lone (g_ok 1)) 0)) \<and>
      modalsMap s2 1 = None \<and> modalsMap s2 2 = Some (next_addr (lone (g_ok 1))) \<and>
      visible (heap s2 (next_addr (lone (g_ok 1)))) \<and>
      modalQueue s2 = remove1 1 (modalQueue (lone (g_ok 1))) @ [2]"
    by blast
  from D have D': "\<exists>s2. drain 0 (makeModal_open 2 Map.empty (lone (g_false 1))) = Some (False, s2) \<and>
      trace s2 = [Invoked 1] \<and>
      modalsMap s2 1 = Some 0 \<and> visible (heap s2 0) \<and> \<not> isClosing (heap s2 0) \<and>
      modalsMap s2 2 = Some 1 \<and> visible (heap s2 1) \<and> modalQueue s2 = [1, 2]"
    by (simp add: 9 10 11 12)
  from A have A': "\<exists>s2. drain 0 (makeModal_open 2 Map.empty (lone (g_ok 1))) = Some (True, s2) \<and>
      trace s2 = [Invoked 1] \<and>
      modalsMap s2 1 = None \<and> modalsMap s2 2 = Some 1 \<and> visible (heap s2 1) \<and>
      modalQueue s2 = [2]"
    by (simp add: 8 9 10 11 12)
  from 1 2 3 4 5 6 7 8 fns d al D' A' show ?thesis
    by simp
qed

subsection \<open>Stacking values\<close>

text \<open>
  With \<open>allowMultiple\<close> absent or true: after opening \<open>A\<close>, \<open>B\<close>, \<open>C\<close>, closing \<open>B\<close> and
  opening \<open>D\<close>, the records of \<open>C\<close> and \<open>D\<close> have the same stacking value.
\<close>

lemma stacking_scenario:
  assumes "distinct [A, B, C, D]"
    and "opt_allowMultiple opts = Absent \<or> opt_allowMultiple opts = Given True"
  shows "modalQueue (after_ABC opts A B C :: 'v state) = [A, B, C] \<and>
         (\<exists>s :: 'v state. run_close B (after_ABC opts A B C) = Some (True, s) \<and>
            modalQueue s = [A, C] \<and>
            modalQueue (then_D D s) = [A, C, D] \<and>
            zIndexOf C (then_D D s) = Some (plus_length (baseZIndex (mergeOptions opts)) 2) \<and>
            zIndexOf D (then_D D s) = Some (plus_length (baseZIndex (mergeOptions opts)) 2))"
proof -
  let ?s3 = "after_ABC opts A B C :: 'v state"
  have d: "distinct [A, B, C]" using assms(1) by simp
  note f = after_ABC_eq [OF d assms(2), where ?'v = 'v]
  have m: "modalsMap ?s3 B = Some 1"
    using assms(1) by (simp add: f)
  have "\<forall>p\<in>set (allFns (heap ?s3 1)). allows p"
    unfolding f(3) by simp
  from all_allow [OF m f(4) this] obtain s where
    s: "run_close B ?s3 = Some (True, s)" "modalsMap s = (modalsMap ?s3)(B := None)"
      "modalQueue s = remove1 B (modalQueue ?s3)" "heap s = heap (closing 1 ?s3)"
      "next_addr s = next_addr ?s3" "options s = options ?s3"
    by blast
  have q: "modalQueue s = [A, C]"
    using assms(1) by (simp add: s f)
  have "truthy (allowMultiple (options s))"
    by (simp add: s f allowMultiple_merge [OF assms(2)])
  moreover have "modalsMap s D = None"
    using assms(1) by (simp add: s f)
  ultimately have D: "then_D D s = create D Map.empty s"
    unfolding then_D_def by (rule open_new)
  have "modalsMap s C = Some 2"
    using assms(1) by (simp add: s f)
  then have "modalQueue (then_D D s) = [A, C, D] \<and>
        zIndexOf C (then_D D s) = Some (plus_length (baseZIndex (mergeOptions opts)) 2) \<and>
        zIndexOf D (then_D D s) = Some (plus_length (baseZIndex (mergeOptions opts)) 2)"
    using assms(1) q f(5)
    by (simp add: D zIndexOf_def s f(1-4,6-7) closing_def numeral_2_eq_2)
  with s(1) q f(1) show ?thesis by blast
qed

text \<open>The same scenario evaluated with the default options, and with \<open>A\<close> closed as well.\<close>

lemma stack3_eq:
  "(after_ABC no_options 1 2 3 :: nat state) =
     \<lparr>options = DEFAULT_OPTIONS,
      heap = (\<lambda>_. blank)
        (0 := \<lparr>props = Map.empty, visible = True, zIndex = Some 1000, isClosing = False, closePromises = []\<rparr>,
         1 := \<lparr>props = Map.empty, visible = True, zIndex = Some 1001, isClosing = False, closePromises = []\<rparr>,
         2 := \<lparr>props = Map.empty, visible = True, zIndex = Some 1002, isClosing = False, closePromises = []\<rparr>),
      next_addr = 3, modalsMap = [1 \<mapsto> 0, 2 \<mapsto> 1, 3 \<mapsto> 2], modalQueue = [1, 2, 3],
      tasks = Map.empty, next_tid = 0, trace = []\<rparr>"
  by (simp add: after_ABC_def no_options_def createModalContext_def mergeOptions_def spread_def
      truthy_def plus_length_def DEFAULT_OPTIONS_def makeModal_open_def open_record_def
      evict_def create_def numeral_2_eq_2 numeral_3_eq_3)

lemma stack3_close_B:
  "run_close 2 (after_ABC no_options 1 2 3 :: nat state) = Some (True,
     \<lparr>options = DEFAULT_OPTIONS,
      heap = (\<lambda>_. blank)
        (0 := \<lparr>props = Map.empty, visible = True, zIndex = Some 1000, isClosing = False, closePromises = []\<rparr>,
         1 := \<lparr>props = Map.empty, visible = False, zIndex = Some 1001, isClosing = True, closePromises = []\<rparr>,
         2 := \<lparr>props = Map.empty, visible = True, zIndex = Some 1002, isClosing = False, closePromises = []\<rparr>),
      next_addr = 3, modalsMap = [1 \<mapsto> 0, 3 \<mapsto> 2], modalQueue = [1, 3],
      tasks = Map.empty, next_tid = 1, trace = []\<rparr>)"
  unfolding stack3_eq
  by (auto simp add: run_close_def closeModal_def loop_next_def after_loop_def allFns_def
      map_delete_def fun_eq_iff)

lemma stack3_close_B_open_D:
  "makeModal_open 4 Map.empty
     \<lparr>options = DEFAULT_OPTIONS,
      heap = (\<lambda>_. blank)
        (0 := \<lparr>props = Map.empty, visible = True, zIndex = Some 1000, isClosing = False, closePromises = []\<rparr>,
         1 := \<lparr>props = Map.empty, visible = False, zIndex = Some 1001, isClosing = True, closePromises = []\<rparr>,
         2 := \<lparr>props = Map.empty, visible = True, zIndex = Some 1002, isClosing = False, closePromises = []\<rparr>),
      next_addr = 3, modalsMap = [1 \<mapsto> 0, 3 \<mapsto> 2], modalQueue = [1, 3],
      tasks = Map.empty, next_tid = 1, trace = []\<rparr> =
     \<lparr>options = DEFAULT_OPTIONS,
      heap = (\<lambda>_. blank)
        (0 := \<lparr>props = Map.empty, visible = True, zIndex = Some 1000, isClosing = False, closePromises = []\<rparr>,
         1 := \<lparr>props = Map.empty, visible = False, zIndex = Some 1001, isClosing = True, closePromises = []\<rparr>,
         2 := \<lparr>props = Map.empty, visible = True, zIndex = Some 1002, isClosing = False, closePromises = []\<rparr>,
         3 := \<lparr>props = Map.empty, visible = True, zIndex = Some 1002, isClosing = False, closePromises = []\<rparr>),
      next_addr = 4, modalsMap = [1 \<mapsto> 0, 3 \<mapsto> 2, 4 \<mapsto> 3], modalQueue = [1, 3, 4],
      tasks = Map.empty, next_tid = 1, trace = [] :: event list\<rparr>"
  by (simp add: makeModal_open_def evict_def open_record_def create_def DEFAULT_OPTIONS_def
      truthy_def plus_length_def)

lemma stack3_close_A:
  "run_close 1
     \<lparr>options = DEFAULT_OPTIONS,
      heap = (\<lambda>_. blank)
        (0 := \<lparr>props = Map.empty, visible = True, zIndex = Some 1000, isClosing = False, closePromises = []\<rparr>,
         1 := \<lparr>props = Map.empty, visible = False, zIndex = Some 1001, isClosing = True, closePromises = []\<rparr>,
         2 := \<lparr>props = Map.empty, visible = True, zIndex = Some 1002, isClosing = False, closePromises = []\<rparr>),
      next_addr = 3, modalsMap = [1 \<mapsto> 0, 3 \<mapsto> 2], modalQueue = [1, 3],
      tasks = Map.empty, next_tid = 1, trace = []\<rparr> = Some (True,
     \<lparr>options = DEFAULT_OPTIONS,
      heap = (\<lambda>_. blank)
        (0 := \<lparr>props = Map.empty, visible = False, zIndex = Some 1000, isClosing = True, closePromises = []\<rparr>,
         1 := \<lparr>props = Map.empty, visible = False, zIndex = Some 1001, isClosing = True, closePromises = []\<rparr>,
         2 := \<lparr>props = Map.empty, visible = True, zIndex = Some 1002, isClosing = False, closePromises = []\<rparr>),
      next_addr = 3, modalsMap = [3 \<mapsto> 2], modalQueue = [3],
      tasks = Map.empty, next_tid = 2, trace = [] :: event list\<rparr>)"
  by (auto simp add: run_close_def closeModal_def loop_next_def after_loop_def allFns_def
      map_delete_def fun_eq_iff)

lemma stack3_close_A_open_D:
  "makeModal_open 4 Map.empty
     \<lparr>options = DEFAULT_OPTIONS,
      heap = (\<lambda>_. blank)
        (0 := \<lparr>props = Map.empty, visible = False, zIndex = Some 1000, isClosing = True, closePromises = []\<rparr>,
         1 := \<lparr>props = Map.empty, visible = False, zIndex = Some 1001, isClosing = True, closePromises = []\<rparr>,
         2 := \<lparr>props = Map.empty, visible = True, zIndex = Some 1002, isClosing = False, closePromises = []\<rparr>),
      next_addr = 3, modalsMap = [3 \<mapsto> 2], modalQueue = [3],
      tasks = Map.empty, next_tid = 2, trace = []\<rparr> =
     \<lparr>options = DEFAULT_OPTIONS,
      heap = (\<lambda>_. blank)
        (0 := \<lparr>props = Map.empty, visible = False, zIndex = Some 1000, isClosing = True, closePromises = []\<rparr>,
         1 := \<lparr>props = Map.empty, visible = False, zIndex = Some 1001, isClosing = True, closePromises = []\<rparr>,
         2 := \<lparr>props = Map.empty, visible = True, zIndex = Some 1002, isClosing = False, closePromises = []\<rparr>,
         3 := \<lparr>props = Map.empty, visible = True, zIndex = Some 1001, isClosing = False, closePromises = []\<rparr>),
      next_addr = 4, modalsMap = [3 \<mapsto> 2, 4 \<mapsto> 3], modalQueue = [3, 4],
      tasks = Map.empty, next_tid = 2, trace = [] :: event list\<rparr>"
  by (simp add: makeModal_open_def evict_def open_record_def create_def DEFAULT_OPTIONS_def
      truthy_def plus_length_def)

section \<open>The claims\<close>

text \<open>
  Claim C1. On a modal with an empty guard map, let owner \<open>A\<close> register \<open>a1\<close> and then
  \<open>a2\<close>, and another owner \<open>B\<close> register \<open>b1\<close>, \<open>A\<close> registering first (\<open>b1\<close> may come
  before or after \<open>a2\<close>). Then the list that \<open>closeModal\<close> iterates over is
  \<open>[a2, a1, b1]\<close>, and the guards a close calls are called in this order (up to the
  first that does not allow).
\<close>

theorem guard_order:
  assumes "modalsMap s m = Some a" and "\<not> isClosing (heap s a)"
    and "closePromises (heap s a) = []" and "A \<noteq> B"
    and "s' = addClosePromise m B b1 (addClosePromise m A a2 (addClosePromise m A a1 s)) \<or>
         s' = addClosePromise m A a2 (addClosePromise m B b1 (addClosePromise m A a1 s))"
  shows "closePromises (heap s' a) = [(A, [a2, a1]), (B, [b1])] \<and>
         allFns (heap s' a) = [a2, a1, b1] \<and>
         (\<exists>b s''. run_close m s' = Some (b, s'') \<and>
            invocations (trace s'') = invocations (trace s') @ map gid (called [a2, a1, b1]))"
proof -
  have cp: "closePromises (heap s' a) = [(A, [a2, a1]), (B, [b1])]"
    using assms by (auto simp: addClosePromise_def Let_def)
  then have fns: "allFns (heap s' a) = [a2, a1, b1]"
    by (simp add: allFns_def)
  have "modalsMap s' m = Some a" and "\<not> isClosing (heap s' a)"
    using assms by (auto simp: addClosePromise_def Let_def)
  from run_close_invocations [OF this] cp fns show ?thesis
    by simp
qed

theorem guard_order_witness:
  "modalsMap opened 1 = Some 0 \<and> \<not> isClosing (heap opened 0) \<and>
   closePromises (heap opened 0) = [] \<and> (5::nat) \<noteq> 6 \<and>
   allFns (heap (guarded (g_ok 1)) 0) = [g_true 2, g_ok 1, g_ok 3] \<and>
   (\<exists>b s''. run_close 1 (guarded (g_ok 1)) = Some (b, s'') \<and> invocations (trace s'') = [2, 1, 3])"
proof -
  have 1: "modalsMap opened 1 = Some 0" and 2: "\<not> isClosing (heap opened 0)"
    and 3: "closePromises (heap opened 0) = []"
    by (simp_all add: opened_def no_options_def model_defs)
  have 4: "(5::nat) \<noteq> 6" by simp
  have 5: "guarded (g_ok 1) =
             addClosePromise 1 6 (g_ok 3) (addClosePromise 1 5 (g_true 2) (addClosePromise 1 5 (g_ok 1) opened)) \<or>
           guarded (g_ok 1) =
             addClosePromise 1 5 (g_true 2) (addClosePromise 1 6 (g_ok 3) (addClosePromise 1 5 (g_ok 1) opened))"
    by (simp add: guarded_def)
  have 6: "invocations (trace (guarded (g_ok 1))) = []"
    by (simp add: guarded_def opened_def no_options_def model_defs)
  have 7: "called [g_true 2, g_ok 1, g_ok 3] = [g_true 2, g_ok 1, g_ok 3]"
    by (simp add: allows_def guard_defs)
  from guard_order [OF 1 2 3 4 5] 1 2 3 6 7 show ?thesis
    by auto
qed

text \<open>
  Claim C2. Let the record of \<open>id\<close> be closing, with the invocation \<open>t\<close> of
  \<open>closeModal\<close> suspended on one of its guards, and let \<open>open(props)\<close> be called. Then
  the registry holds a new record for \<open>id\<close>, at a fresh address: visible, not closing,
  with the props of this call and no guard; \<open>id\<close> has been appended to the Open Queue;
  the old record is no longer closing. When the suspended invocation is resumed to
  its end, whatever its guards do, it resolves to \<open>false\<close> and leaves the registry,
  the Open Queue and the new record as they are. And after any further steps, a
  resumption of a negotiation that holds the old record does not resolve to \<open>true\<close>
  and changes neither the registry, nor the Open Queue, nor any record but the old
  one.
\<close>

theorem reopen_during_close:
  assumes "reachable s" and "modalsMap s ident = Some a" and "isClosing (heap s a)"
    and "tasks s t = Some k" and "t_modal k = a"
  shows "next_addr s \<noteq> a \<and>
         modalsMap (makeModal_open ident p s) ident = Some (next_addr s) \<and>
         heap (makeModal_open ident p s) (next_addr s) =
           \<lparr>props = p, visible = True,
            zIndex = plus_length (baseZIndex (options s)) (length (modalQueue (evict s))),
            isClosing = False, closePromises = []\<rparr> \<and>
         makeModal_isVisible ident (makeModal_open ident p s) \<and>
         modalQueue (makeModal_open ident p s) = modalQueue (evict s) @ [ident] \<and>
         \<not> isClosing (heap (makeModal_open ident p s) a) \<and>
         (\<exists>s'. drain t (makeModal_open ident p s) = Some (False, s') \<and>
            modalsMap s' = modalsMap (makeModal_open ident p s) \<and>
            modalQueue s' = modalQueue (makeModal_open ident p s) \<and>
            heap s' (next_addr s) = heap (makeModal_open ident p s) (next_addr s)) \<and>
         (\<forall>s2 t2 k2 r s3.
            rtranclp step (makeModal_open ident p s) s2 \<longrightarrow>
            tasks s2 t2 = Some k2 \<longrightarrow> t_modal k2 = a \<longrightarrow> resume t2 s2 = Some (r, s3) \<longrightarrow>
            r \<noteq> Resolved True \<and> modalsMap s3 = modalsMap s2 \<and> modalQueue s3 = modalQueue s2 \<and>
            (\<forall>x. x \<noteq> a \<longrightarrow> heap s3 x = heap s2 x))"
proof -
  let ?s1 = "makeModal_open ident p s"
  from assms(1) have wf: "wf_state s" by (rule reachable_wf)
  with assms(2,4) have a: "a < next_addr s" and t: "t < next_tid s"
    by (auto simp: wf_state_def)
  note e = evict_keeps_closing [OF assms(2,3)]
  have e3: "isClosing (heap (evict s) a)" using assms(3) by (simp add: e)
  have s1: "?s1 = create ident p
             ((evict s)\<lparr>heap := (heap (evict s))(a := (heap (evict s) a)
                  \<lparr>props := props (heap (evict s) a) ++ p, isClosing := False\<rparr>),
                modalsMap := (modalsMap (evict s))(ident := None)\<rparr>)"
    unfolding makeModal_open_def by (rule open_record_closing [OF e(1) e3])
  have m1: "modalsMap ?s1 ident = Some (next_addr s)"
    by (simp add: s1 e)
  have h1: "heap ?s1 (next_addr s) =
           \<lparr>props = p, visible = True,
            zIndex = plus_length (baseZIndex (options s)) (length (modalQueue (evict s))),
            isClosing = False, closePromises = []\<rparr>"
    by (simp add: s1 e)
  have v1: "makeModal_isVisible ident ?s1"
    by (simp add: makeModal_isVisible_def m1 h1)
  have q1: "modalQueue ?s1 = modalQueue (evict s) @ [ident]"
    by (simp add: s1)
  have c1: "\<not> isClosing (heap ?s1 a)"
    using a by (simp add: s1 e)
  have t1: "tasks ?s1 t = Some k"
    using assms(4) t by (simp add: s1 e)
  from c1 assms(5) have "\<not> isClosing (heap ?s1 (t_modal k))" by simp
  from drain_cancelled [OF t1 this] obtain s' where
    "drain t ?s1 = Some (False, s')" "modalsMap s' = modalsMap ?s1"
    "modalQueue s' = modalQueue ?s1" "\<forall>x. x \<noteq> t_modal k \<longrightarrow> heap s' x = heap ?s1 x"
    by blast
  moreover from this(4) a assms(5) have "heap s' (next_addr s) = heap ?s1 (next_addr s)"
    by simp
  moreover have "\<forall>s2 t2 k2 r s3.
            rtranclp step ?s1 s2 \<longrightarrow>
            tasks s2 t2 = Some k2 \<longrightarrow> t_modal k2 = a \<longrightarrow> resume t2 s2 = Some (r, s3) \<longrightarrow>
            r \<noteq> Resolved True \<and> modalsMap s3 = modalsMap s2 \<and> modalQueue s3 = modalQueue s2 \<and>
            (\<forall>x. x \<noteq> a \<longrightarrow> heap s3 x = heap s2 x)"
  proof (intro allI impI)
    fix s2 t2 k2 r s3
    assume st: "rtranclp step ?s1 s2" and k2: "tasks s2 t2 = Some k2" "t_modal k2 = a"
      and rs: "resume t2 s2 = Some (r, s3)"
    have "wf_state (evict s)" using wf by (rule wf_evict)
    with e(1) have "\<forall>i. i \<noteq> ident \<longrightarrow> modalsMap (evict s) i \<noteq> Some a"
      unfolding wf_state_def by blast
    with a have "replaced a ?s1"
      unfolding replaced_def by (simp add: s1 e)
    with st have "replaced a s2" by (rule replaced_steps)
    then have "\<not> isClosing (heap s2 (t_modal k2))"
      by (simp add: replaced_def k2)
    from resume_cancelled [OF k2(1) this rs] k2(2)
    show "r \<noteq> Resolved True \<and> modalsMap s3 = modalsMap s2 \<and> modalQueue s3 = modalQueue s2 \<and>
            (\<forall>x. x \<noteq> a \<longrightarrow> heap s3 x = heap s2 x)"
      by simp
  qed
  ultimately show ?thesis
    using a m1 h1 v1 q1 c1 by blast
qed

theorem reopen_during_close_witness:
  "reachable (pending (g_ok 1)) \<and> modalsMap (pending (g_ok 1)) 1 = Some 0 \<and>
   isClosing (heap (pending (g_ok 1)) 0) \<and>
   tasks (pending (g_ok 1)) 0 = Some \<lparr>t_id = 1, t_modal = 0, awaited = Fulfils None, rest = []\<rparr> \<and>
   modalsMap (reopened (g_ok 1)) 1 = Some 1 \<and>
   heap (reopened (g_ok 1)) 1 =
     \<lparr>props = [''title'' \<mapsto> 7], visible = True, zIndex = Some 1001, isClosing = False,
      closePromises = []\<rparr> \<and>
   modalQueue (reopened (g_ok 1)) = [1, 1] \<and>
   (\<exists>s'. drain 0 (reopened (g_ok 1)) = Some (False, s') \<and>
      modalsMap s' 1 = Some 1 \<and> modalQueue s' = [1, 1] \<and>
      heap s' 1 = \<lparr>props = [''title'' \<mapsto> 7], visible = True, zIndex = Some 1001, isClosing = False,
                    closePromises = []\<rparr>) \<and>
   rtranclp step (reopened (g_ok 1)) (addClosePromise 1 5 (g_true 2) (reopened (g_ok 1))) \<and>
   (\<exists>r s3. resume 0 (addClosePromise 1 5 (g_true 2) (reopened (g_ok 1))) = Some (r, s3) \<and>
      r \<noteq> Resolved True \<and> modalsMap s3 1 = Some 1 \<and> modalQueue s3 = [1, 1] \<and>
      heap s3 1 = \<lparr>props = [''title'' \<mapsto> 7], visible = True, zIndex = Some 1001, isClosing = False,
                    closePromises = [(5, [g_true 2])]\<rparr>)"
proof -
  let ?s = "pending (g_ok 1)"
  let ?k = "\<lparr>t_id = 1, t_modal = 0, awaited = Fulfils None, rest = []\<rparr>"
  let ?s2 = "addClosePromise 1 5 (g_true 2) (reopened (g_ok 1))"
  have 1: "reachable ?s" by (rule reachable_pending)
  have 2: "modalsMap ?s 1 = Some 0" and 3: "isClosing (heap ?s 0)"
    and 4: "tasks ?s 0 = Some ?k" and 6: "next_addr ?s = 1"
    by (simp_all add: g_ok_def pending_eq)
  have 5: "t_modal ?k = 0" by simp
  have 7: "reopened (g_ok 1) = makeModal_open 1 [''title'' \<mapsto> 7] ?s"
    by (simp add: reopened_def)
  have 8: "modalsMap (reopened (g_ok 1)) = [1 \<mapsto> 1]"
    "heap (reopened (g_ok 1)) 1 =
       \<lparr>props = [''title'' \<mapsto> 7], visible = True, zIndex = Some 1001, isClosing = False,
        closePromises = []\<rparr>"
    "modalQueue (reopened (g_ok 1)) = [1, 1]"
    by (simp_all add: g_ok_def reopened_eq)
  have 9: "rtranclp step (reopened (g_ok 1)) ?s2"
    by (rule r_into_rtranclp) (rule s_add)
  have 10: "tasks ?s2 0 = Some ?k" "modalsMap ?s2 = [1 \<mapsto> 1]" "modalQueue ?s2 = [1, 1]"
    "heap ?s2 1 = \<lparr>props = [''title'' \<mapsto> 7], visible = True, zIndex = Some 1001, isClosing = False,
                    closePromises = [(5, [g_true 2])]\<rparr>"
    by (simp_all add: g_ok_def reopened_eq addClosePromise_def)
  then obtain r s3 where 11: "resume 0 ?s2 = Some (r, s3)"
    by (cases "resume 0 ?s2") (auto simp: resume_def)
  note rd = reopen_during_close [OF 1 2 3 4 5, of "[''title'' \<mapsto> 7]", folded 7]
  from rd have A: "\<exists>s'. drain 0 (reopened (g_ok 1)) = Some (False, s') \<and>
            modalsMap s' = modalsMap (reopened (g_ok 1)) \<and>
            modalQueue s' = modalQueue (reopened (g_ok 1)) \<and>
            heap s' (next_addr ?s) = heap (reopened (g_ok 1)) (next_addr ?s)"
    by blast
  from rd 9 10(1) 5 11 have B: "r \<noteq> Resolved True \<and> modalsMap s3 = modalsMap ?s2 \<and>
      modalQueue s3 = modalQueue ?s2 \<and> (\<forall>x. x \<noteq> 0 \<longrightarrow> heap s3 x = heap ?s2 x)"
    by blast
  then have "r \<noteq> Resolved True \<and> modalsMap s3 1 = Some 1 \<and> modalQueue s3 = [1, 1] \<and>
      heap s3 1 = \<lparr>props = [''title'' \<mapsto> 7], visible = True, zIndex = Some 1001, isClosing = False,
                    closePromises = [(5, [g_true 2])]\<rparr>"
    using 10 by simp
  with 11 have C: "\<exists>r s3. resume 0 ?s2 = Some (r, s3) \<and>
      r \<noteq> Resolved True \<and> modalsMap s3 1 = Some 1 \<and> modalQueue s3 = [1, 1] \<and>
      heap s3 1 = \<lparr>props = [''title'' \<mapsto> 7], visible = True, zIndex = Some 1001, isClosing = False,
                    closePromises = [(5, [g_true 2])]\<rparr>"
    by blast
  from A 6 8 have D: "\<exists>s'. drain 0 (reopened (g_ok 1)) = Some (False, s') \<and>
      modalsMap s' 1 = Some 1 \<and> modalQueue s' = [1, 1] \<and>
      heap s' 1 = \<lparr>props = [''title'' \<mapsto> 7], visible = True, zIndex = Some 1001, isClosing = False,
                    closePromises = []\<rparr>"
    by auto
  from 1 2 3 4 8 9 C D show ?thesis
    by simp
qed

text \<open>
  Claim C3, amended. In every reachable state (under \<open>open\<close>, \<open>closeModal\<close> and its
  resumptions, \<open>close\<close>, \<open>addClosePromise\<close> and \<open>removeComponentPromises\<close>), whatever
  the history \<open>E\<close> of aborted records on the way to it: the registry holds a record for
  \<open>id\<close> if and only if it holds one that is visible, or closing, or whose close
  negotiation a guard error has aborted (a guard threw or what it returned was
  rejected); and as long as no guard error has been reported, no record has been
  aborted, so that the record is visible or closing.
\<close>

theorem registry_iff_visible_closing_or_aborted:
  assumes "reachable s"
  shows "(\<exists>E. tracked E s) \<and>
         (\<forall>E. tracked E s \<longrightarrow>
            ((modalsMap s ident \<noteq> None) =
               (\<exists>a. modalsMap s ident = Some a \<and>
                    (visible (heap s a) \<or> isClosing (heap s a) \<or> a \<in> E))) \<and>
            (ErrorReported \<notin> set (trace s) \<longrightarrow> E = {}))"
proof (intro conjI allI impI)
  show "\<exists>E. tracked E s"
    using assms by (rule reachable_tracked)
next
  fix E
  assume t: "tracked E s"
  from tracked_covered [OF t]
  show "(modalsMap s ident \<noteq> None) =
          (\<exists>a. modalsMap s ident = Some a \<and>
               (visible (heap s a) \<or> isClosing (heap s a) \<or> a \<in> E))"
    by (auto simp: covered_def)
  assume "ErrorReported \<notin> set (trace s)"
  with tracked_quiet [OF t] show "E = {}"
    by (simp add: quiet_def)
qed

theorem registry_iff_visible_closing_or_aborted_witness:
  "reachable aborted \<and> tracked {0} aborted \<and> modalsMap aborted 1 \<noteq> None \<and>
   (\<exists>a. modalsMap aborted 1 = Some a \<and>
        (visible (heap aborted a) \<or> isClosing (heap aborted a) \<or> a \<in> {0})) \<and>
   reachable (pending (g_ok 1)) \<and> tracked {} (pending (g_ok 1)) \<and>
   ErrorReported \<notin> set (trace (pending (g_ok 1))) \<and>
   (\<exists>a. modalsMap (pending (g_ok 1)) 1 = Some a \<and> isClosing (heap (pending (g_ok 1)) a))"
  using registry_iff_visible_closing_or_aborted [OF reachable_aborted, of 1]
    registry_iff_visible_closing_or_aborted [OF reachable_pending, of "g_ok 1" 1]
    reachable_aborted reachable_pending [of "g_ok 1"] tracked_aborted
    tracked_pending [of 1 "Fulfils None"]
  by (simp add: aborted_eq pending_eq g_ok_def)

text \<open>
  The claim as stated fails: after a throwing guard has aborted the close of modal
  \<open>1\<close>, its record is in the registry, neither visible nor closing.
\<close>

theorem registry_iff_visible_or_closing_counterexample:
  "reachable aborted \<and> modalsMap aborted 1 = Some 0 \<and>
   \<not> visible (heap aborted 0) \<and> \<not> isClosing (heap aborted 0)"
  using reachable_aborted by (simp add: aborted_eq)

text \<open>
  Claim C4. When the guards before \<open>g\<close> in the evaluation order allow and \<open>g\<close> returns
  \<open>false\<close>, the negotiation calls exactly the guards up to \<open>g\<close> (none of the later
  ones), \<open>closeModal\<close> resolves to \<open>false\<close>, the record is still in the registry
  with \<open>isClosing = false\<close> and \<open>visible = true\<close>, and \<open>isVisible\<close> returns \<open>true\<close>.
\<close>

theorem guard_denial:
  assumes "modalsMap s ident = Some a" and "\<not> isClosing (heap s a)"
    and "allFns (heap s a) = pre @ g # post"
    and "\<forall>p\<in>set pre. allows p" and "denies g"
  shows "\<exists>s'. run_close ident s = Some (False, s') \<and>
           trace s' = trace s @ map (Invoked \<circ> gid) (pre @ [g]) \<and>
           modalsMap s' = modalsMap s \<and> modalQueue s' = modalQueue s \<and>
           \<not> isClosing (heap s' a) \<and> visible (heap s' a) \<and>
           makeModal_isVisible ident s'"
proof -
  from run_close_negotiate [OF assms(1,2)] obtain tk where
    "run_close ident s =
       Some (case negotiate ident a (allFns (heap s a)) (closing a s) of
               (b, r) \<Rightarrow> (b, r\<lparr>tasks := tk\<rparr>))" ..
  then have "run_close ident s =
      Some (False, (on_deny a (closing a s
         \<lparr>trace := trace s @ map (Invoked \<circ> gid) pre @ [Invoked (gid g)]\<rparr>))\<lparr>tasks := tk\<rparr>)"
    using assms(3-5) by (simp add: negotiate_allows negotiate_denies closing_def del: negotiate.simps)
  then show ?thesis
    using assms(1)
    by (simp add: on_deny_def closing_def makeModal_isVisible_def)
qed

theorem guard_denial_witness:
  "modalsMap (guarded (g_false 1)) 1 = Some 0 \<and>
   \<not> isClosing (heap (guarded (g_false 1)) 0) \<and>
   allFns (heap (guarded (g_false 1)) 0) = [g_true 2] @ g_false 1 # [g_ok 3] \<and>
   allows (g_true 2) \<and> denies (g_false 1) \<and>
   (\<exists>s'. run_close 1 (guarded (g_false 1)) = Some (False, s') \<and>
         trace s' = [Invoked 2, Invoked 1] \<and>
         modalsMap s' 1 = Some 0 \<and> modalQueue s' = [1] \<and>
         \<not> isClosing (heap s' 0) \<and> visible (heap s' 0) \<and> makeModal_isVisible 1 s')"
proof -
  let ?s = "guarded (g_false 1)"
  have 1: "modalsMap ?s 1 = Some 0"
    by (simp add: guarded_def opened_def no_options_def model_defs)
  have 2: "\<not> isClosing (heap ?s 0)"
    by (simp add: guarded_def opened_def no_options_def model_defs)
  have 3: "allFns (heap ?s 0) = [g_true 2] @ g_false 1 # [g_ok 3]"
    by (simp add: guarded_def opened_def no_options_def model_defs)
  have 4: "\<forall>p\<in>set [g_true 2]. allows p"
    by (simp add: allows_def g_true_def)
  have 5: "denies (g_false 1)"
    by (simp add: denies_def g_false_def)
  have 6: "trace ?s = []" "modalQueue ?s = [1]"
    by (simp_all add: guarded_def opened_def no_options_def model_defs)
  from guard_denial [OF 1 2 3 4 5] 1 2 3 4 5 6
  show ?thesis by auto
qed

text \<open>
  Claim C5. When the guards before \<open>g\<close> allow and \<open>g\<close> throws, or what it returned
  rejects, the error is caught and reported, \<open>closeModal\<close> resolves to \<open>false\<close>
  (its promise does not reject), \<open>isClosing\<close> is back to \<open>false\<close> and \<open>visible\<close>
  stays \<open>false\<close>; the record stays in the registry.
\<close>

theorem guard_error:
  assumes "modalsMap s ident = Some a" and "\<not> isClosing (heap s a)"
    and "allFns (heap s a) = pre @ g # post"
    and "\<forall>p\<in>set pre. allows p" and "fails g"
  shows "\<exists>s'. run_close ident s = Some (False, s') \<and>
           trace s' = trace s @ map (Invoked \<circ> gid) (pre @ [g]) @ [ErrorReported] \<and>
           modalsMap s' = modalsMap s \<and> modalQueue s' = modalQueue s \<and>
           \<not> isClosing (heap s' a) \<and> \<not> visible (heap s' a) \<and>
           \<not> makeModal_isVisible ident s'"
proof -
  from run_close_negotiate [OF assms(1,2)] obtain tk where
    "run_close ident s =
       Some (case negotiate ident a (allFns (heap s a)) (closing a s) of
               (b, r) \<Rightarrow> (b, r\<lparr>tasks := tk\<rparr>))" ..
  then have "run_close ident s =
      Some (False, (on_error a (closing a s
         \<lparr>trace := trace s @ map (Invoked \<circ> gid) pre @ [Invoked (gid g)]\<rparr>))\<lparr>tasks := tk\<rparr>)"
    using assms(3-5) by (simp add: negotiate_allows negotiate_fails closing_def del: negotiate.simps)
  then show ?thesis
    using assms(1)
    by (simp add: on_error_def closing_def makeModal_isVisible_def)
qed

theorem guard_error_witness:
  "modalsMap (guarded (g_rejects 1)) 1 = Some 0 \<and>
   \<not> isClosing (heap (guarded (g_rejects 1)) 0) \<and>
   allFns (heap (guarded (g_rejects 1)) 0) = [g_true 2] @ g_rejects 1 # [g_ok 3] \<and>
   allows (g_true 2) \<and> fails (g_rejects 1) \<and>
   (\<exists>s'. run_close 1 (guarded (g_rejects 1)) = Some (False, s') \<and>
         trace s' = [Invoked 2, Invoked 1, ErrorReported] \<and>
         modalsMap s' 1 = Some 0 \<and> modalQueue s' = [1] \<and>
         \<not> isClosing (heap s' 0) \<and> \<not> visible (heap s' 0) \<and> \<not> makeModal_isVisible 1 s')"
proof -
  let ?s = "guarded (g_rejects 1)"
  have 1: "modalsMap ?s 1 = Some 0"
    by (simp add: guarded_def opened_def no_options_def model_defs)
  have 2: "\<not> isClosing (heap ?s 0)"
    by (simp add: guarded_def opened_def no_options_def model_defs)
  have 3: "allFns (heap ?s 0) = [g_true 2] @ g_rejects 1 # [g_ok 3]"
    by (simp add: guarded_def opened_def no_options_def model_defs)
  have 4: "\<forall>p\<in>set [g_true 2]. allows p"
    by (simp add: allows_def g_true_def)
  have 5: "fails (g_rejects 1)"
    by (simp add: fails_def g_rejects_def)
  have 6: "trace ?s = []" "modalQueue ?s = [1]"
    by (simp_all add: guarded_def opened_def no_options_def model_defs)
  from guard_error [OF 1 2 3 4 5] 1 2 3 4 5 6
  show ?thesis by auto
qed

text \<open>
  Claim C6, on the code. With the guards all allowing, \<open>closeModal\<close> resolves to
  \<open>true\<close>, deletes the record and removes the first occurrence of the identity from
  the Open Queue (\<open>all_allow\<close>), which leaves none when there was at most one
  (\<open>all_allow_absent\<close>); but the identity need not be absent from the Open Queue
  afterwards. Modal \<open>1\<close> is opened and guarded, a close of it is suspended on the
  guard, \<open>open\<close> is called again, and the new record gets a guard that returns
  \<open>true\<close>; the close of the new record resolves to \<open>true\<close> and leaves the Open Queue
  \<open>[1]\<close>, with no record for \<open>1\<close>.
\<close>

theorem close_leaves_queue_entry:
  "set (allFns (heap (addClosePromise 1 5 (g_true 2) (reopened (g_ok 1))) 1)) = {g_true 2} \<and>
   allows (g_true 2) \<and>
   map_option fst (run_close 1 (addClosePromise 1 5 (g_true 2) (reopened (g_ok 1)))) = Some True \<and>
   map_option (\<lambda>r. modalsMap (snd r) 1)
     (run_close 1 (addClosePromise 1 5 (g_true 2) (reopened (g_ok 1)))) = Some None \<and>
   map_option (\<lambda>r. modalQueue (snd r))
     (run_close 1 (addClosePromise 1 5 (g_true 2) (reopened (g_ok 1)))) = Some [1]"
proof -
  have "set (allFns (heap (addClosePromise 1 5 (g_true 2) (reopened (g_ok 1))) 1)) = {g_true 2}"
    by (simp add: g_ok_def reopened_eq addClosePromise_def allFns_def)
  moreover have "allows (g_true 2)"
    by (simp add: allows_def g_true_def)
  ultimately show ?thesis
    using reopened_guarded_close [of 1 "Fulfils None"]
    by (simp add: g_ok_def)
qed

text \<open>
  Claim C7. \<open>closeModal(id)\<close> returns \<open>false\<close> at once, with the state (and so the
  trace of guard calls) unchanged, when \<open>id\<close> has no record or its record is already
  closing; and after a close that resolved to \<open>true\<close>, \<open>close()\<close> and \<open>closeModal\<close>
  on the same identity return \<open>false\<close> and change nothing.
\<close>

theorem closeModal_refused:
  "(modalsMap s ident = None \<or> (\<exists>a. modalsMap s ident = Some a \<and> isClosing (heap s a))
      \<longrightarrow> closeModal ident s = (Resolved False, s)) \<and>
   (run_close ident s = Some (True, s')
      \<longrightarrow> makeModal_close ident s' = (Resolved False, s') \<and>
          closeModal ident s' = (Resolved False, s'))"
  by (auto simp: closeModal_def makeModal_close_def dest: run_close_True)

theorem closeModal_refused_witness:
  "closeModal 1 (createModalContext no_options :: nat state)
     = (Resolved False, createModalContext no_options) \<and>
   (\<exists>s'. run_close 1 (guarded (g_ok 1)) = Some (True, s') \<and>
         makeModal_close 1 s' = (Resolved False, s') \<and>
         closeModal 1 s' = (Resolved False, s'))"
proof -
  have 1: "modalsMap (createModalContext no_options :: nat state) 1 = None"
    by (simp add: model_defs)
  obtain s' where 2: "run_close 1 (guarded (g_ok 1)) = Some (True, s')"
    by (simp add: guarded_def opened_def no_options_def guard_defs model_defs drain.simps)
  from closeModal_refused [of "createModalContext no_options :: nat state" 1] 1
    closeModal_refused [of "guarded (g_ok 1)" 1 s'] 2
  show ?thesis by simp
qed

text \<open>
  Claim C8, on the code. In the reachable state \<open>stale\<close> the context has
  \<open>allowMultiple: false\<close>, the Open Queue is \<open>[2, 1]\<close>, modal \<open>2\<close> is the one open modal,
  with one guard, which allows, and no negotiation is suspended; the entry \<open>1\<close> at the
  end of the queue is left over from a reopening (claim C6). \<open>open\<close> for modal \<open>3\<close>
  looks up the last entry, finds no record and starts no negotiation: the guard of
  \<open>2\<close> is not called, and \<open>2\<close> and \<open>3\<close> are both open afterwards. When the last entry
  has a record, the eviction works as claimed (lemma \<open>eviction_of_last_entry\<close>).
\<close>

theorem eviction_skips_open_modal:
  "reachable stale \<and>
   allowMultiple (options stale) = Some False \<and>
   modalQueue stale = [2, 1] \<and>
   modalsMap stale = [2 \<mapsto> 0] \<and>
   makeModal_isVisible 2 stale \<and>
   \<not> isClosing (heap stale 0) \<and>
   allFns (heap stale 0) = [g_true 3] \<and>
   allows (g_true 3) \<and>
   tasks stale = Map.empty \<and>
   trace (makeModal_open 3 Map.empty stale) = trace stale \<and>
   tasks (makeModal_open 3 Map.empty stale) = Map.empty \<and>
   modalQueue (makeModal_open 3 Map.empty stale) = [2, 1, 3] \<and>
   makeModal_isVisible 2 (makeModal_open 3 Map.empty stale) \<and>
   makeModal_isVisible 3 (makeModal_open 3 Map.empty stale)"
  unfolding open_stale
  using reachable_stale
  by (simp add: stale_eq makeModal_isVisible_def allFns_def allows_def g_true_def)

text \<open>
  Claim C9, on the code. With the default options, after opening \<open>A = 1\<close>, \<open>B = 2\<close>,
  \<open>C = 3\<close> (queue \<open>[1, 2, 3]\<close>) and closing \<open>B\<close> (queue \<open>[1, 3]\<close>), opening \<open>D = 4\<close>
  gives the queue \<open>[1, 3, 4]\<close> and \<open>D\<close> the stacking value \<open>1002\<close>, which \<open>C\<close> has
  already: it is not greater than that of \<open>C\<close>. When \<open>A\<close> is closed as well before \<open>D\<close>
  is opened, \<open>D\<close> gets \<open>1001\<close>, below the \<open>1002\<close> of \<open>C\<close>.
\<close>

theorem stacking_value_not_increasing:
  "\<exists>s t :: nat state.
     modalQueue (after_ABC no_options 1 2 3 :: nat state) = [1, 2, 3] \<and>
     run_close 2 (after_ABC no_options 1 2 3) = Some (True, s) \<and>
     modalQueue s = [1, 3] \<and>
     modalQueue (then_D 4 s) = [1, 3, 4] \<and>
     zIndexOf 3 (then_D 4 s) = Some (Some 1002) \<and>
     zIndexOf 4 (then_D 4 s) = Some (Some 1002) \<and>
     run_close 1 s = Some (True, t) \<and>
     modalQueue t = [3] \<and>
     modalQueue (then_D 4 t) = [3, 4] \<and>
     zIndexOf 3 (then_D 4 t) = Some (Some 1002) \<and>
     zIndexOf 4 (then_D 4 t) = Some (Some 1001)"
  unfolding then_D_def
  apply (intro exI conjI)
            apply (rule after_ABC_eq(1) [where ?'v = nat]; simp add: no_options_def)
           apply (rule stack3_close_B)
          apply simp
         apply (simp only: stack3_close_B_open_D)
         apply simp
        apply (simp only: stack3_close_B_open_D)
        apply (simp add: zIndexOf_def)
       apply (simp only: stack3_close_B_open_D)
       apply (simp add: zIndexOf_def)
      apply (rule stack3_close_A)
     apply simp
    apply (simp only: stack3_close_A_open_D)
    apply simp
   apply (simp only: stack3_close_A_open_D)
   apply (simp add: zIndexOf_def)
  apply (simp only: stack3_close_A_open_D)
  apply (simp add: zIndexOf_def)
  done

text \<open>
  Claim C10. When \<open>open\<close> is called on an identity whose record is closing, the
  registry gets a new record for it (at a fresh address, the old one is dropped), and
  the identity is pushed on the Open Queue while its old entry is still there: it
  now occurs once more than before, at least twice. The new record has no guard, so
  a close of it succeeds; that close removes the first occurrence only, and the
  identity is still in the Open Queue although it has no record.
\<close>

theorem reopen_duplicates_queue_entry:
  assumes "reachable s" and "modalsMap s ident = Some a" and "isClosing (heap s a)"
  shows "ident \<in> set (modalQueue s) \<and>
         modalsMap (makeModal_open ident p s) ident = Some (next_addr s) \<and>
         next_addr s \<noteq> a \<and>
         modalQueue (makeModal_open ident p s) = modalQueue (evict s) @ [ident] \<and>
         count_list (modalQueue (makeModal_open ident p s)) ident
           = Suc (count_list (modalQueue s) ident) \<and>
         2 \<le> count_list (modalQueue (makeModal_open ident p s)) ident \<and>
         (\<exists>s'. run_close ident (makeModal_open ident p s) = Some (True, s') \<and>
            modalsMap s' ident = None \<and>
            modalQueue s' = remove1 ident (modalQueue (makeModal_open ident p s)) \<and>
            ident \<in> set (modalQueue s'))"
proof -
  let ?s1 = "makeModal_open ident p s"
  from assms(1) have wf: "wf_state s" by (rule reachable_wf)
  with assms(2) have a: "a < next_addr s" and q: "ident \<in> set (modalQueue s)"
    by (auto simp: wf_state_def)
  note e = evict_keeps_closing [OF assms(2,3)]
  have e3: "isClosing (heap (evict s) a)" using assms(3) by (simp add: e)
  have s1: "?s1 = create ident p
             ((evict s)\<lparr>heap := (heap (evict s))(a := (heap (evict s) a)
                  \<lparr>props := props (heap (evict s) a) ++ p, isClosing := False\<rparr>),
                modalsMap := (modalsMap (evict s))(ident := None)\<rparr>)"
    unfolding makeModal_open_def by (rule open_record_closing [OF e(1) e3])
  have m1: "modalsMap ?s1 ident = Some (next_addr s)"
    by (simp add: s1 e)
  have q1: "modalQueue ?s1 = modalQueue (evict s) @ [ident]"
    by (simp add: s1)
  have c1: "count_list (modalQueue ?s1) ident = Suc (count_list (modalQueue s) ident)"
    by (simp add: q1 e)
  from q have "0 < count_list (modalQueue s) ident"
    using count_list_0_iff [of "modalQueue s" ident] by simp
  with c1 have c2: "2 \<le> count_list (modalQueue ?s1) ident" by simp
  have "\<not> isClosing (heap ?s1 (next_addr s))"
    and "\<forall>g\<in>set (allFns (heap ?s1 (next_addr s))). allows g"
    by (simp_all add: s1 e allFns_def)
  from all_allow [OF m1 this] obtain s' where
    s': "run_close ident ?s1 = Some (True, s')" "modalsMap s' = (modalsMap ?s1)(ident := None)"
      "modalQueue s' = remove1 ident (modalQueue ?s1)"
    by blast
  have "ident \<in> set (modalQueue ?s1)" by (simp add: q1)
  from count_list_remove1_same [OF this] c2 have "0 < count_list (modalQueue s') ident"
    by (simp add: s'(3))
  then have "ident \<in> set (modalQueue s')"
    using count_list_0_iff [of "modalQueue s'" ident] by simp
  with q m1 a q1 c1 c2 s' show ?thesis by auto
qed

theorem reopen_duplicates_queue_entry_witness:
  "reachable (pending (g_ok 1)) \<and> modalsMap (pending (g_ok 1)) 1 = Some 0 \<and>
   isClosing (heap (pending (g_ok 1)) 0) \<and>
   modalQueue (pending (g_ok 1)) = [1] \<and>
   modalsMap (reopened (g_ok 1)) 1 = Some 1 \<and>
   modalQueue (reopened (g_ok 1)) = [1, 1] \<and>
   (\<exists>s'. run_close 1 (reopened (g_ok 1)) = Some (True, s') \<and>
      modalsMap s' 1 = None \<and> modalQueue s' = [1])"
proof -
  let ?s = "pending (g_ok 1)"
  have 1: "reachable ?s" by (rule reachable_pending)
  have 2: "modalsMap ?s 1 = Some 0" and 3: "isClosing (heap ?s 0)"
    and 4: "modalQueue ?s = [1]" and 5: "next_addr ?s = 1"
    by (simp_all add: g_ok_def pending_eq)
  have 6: "modalQueue (reopened (g_ok 1)) = [1, 1]"
    by (simp add: g_ok_def reopened_eq)
  have 7: "reopened (g_ok 1) = makeModal_open 1 [''title'' \<mapsto> 7] ?s"
    by (simp add: reopened_def)
  from reopen_duplicates_queue_entry [OF 1 2 3, of "[''title'' \<mapsto> 7]"]
  have "modalsMap (reopened (g_ok 1)) 1 = Some (next_addr ?s) \<and>
        (\<exists>s'. run_close 1 (reopened (g_ok 1)) = Some (True, s') \<and>
           modalsMap s' 1 = None \<and> modalQueue s' = remove1 1 (modalQueue (reopened (g_ok 1))))"
    unfolding 7 by blast
  with 1 2 3 4 5 6 show ?thesis
    by auto
qed

end
